theory Spec2Isabelle
  imports Complex_Main "HOL-Library.Word"
begin

section \<open>Strings and arrays of the host language\<close>

text \<open>
  A JavaScript string is a sequence of 16-bit code units.  A line, a document text and a
  cached HTML fragment are all such sequences.
\<close>

type_synonym cu = "16 word"
type_synonym jsstring = "cu list"

text \<open>ASCII literals of the source, written as Isabelle strings.\<close>

definition js :: "string \<Rightarrow> jsstring" where
  "js cs = map (\<lambda>c. word_of_nat (of_char c)) cs"

definition LF :: cu where "LF = 0x0A"
definition DQUOTE :: cu where "DQUOTE = 0x22"
definition BACKSLASH :: cu where "BACKSLASH = 0x5C"

text \<open>
  \<^verbatim>\<open>text.split("\n")\<close>: the pieces between line feeds; a text without a line feed is one
  line, and a trailing line feed gives a trailing empty line.
\<close>

fun splitLines :: "jsstring \<Rightarrow> jsstring list" where
  "splitLines [] = [[]]"
| "splitLines (c # cs) =
     (if c = LF then [] # splitLines cs
      else (case splitLines cs of
              l # ls \<Rightarrow> (c # l) # ls
            | [] \<Rightarrow> [[c]]))"

text \<open>
  \<^verbatim>\<open>Array.prototype.slice(a, b)\<close> and \<^verbatim>\<open>Array.prototype.splice(a, n, ...items)\<close> with
  their clamping of relative and out-of-range arguments.
\<close>

definition relIndex :: "int \<Rightarrow> nat \<Rightarrow> nat" where
  "relIndex a len = (if a < 0 then nat (max (int len + a) 0) else min (nat a) len)"

definition array_slice :: "'a list \<Rightarrow> int \<Rightarrow> int \<Rightarrow> 'a list" where
  "array_slice xs a b =
     (let k = relIndex a (length xs); f = relIndex b (length xs)
      in take (f - k) (drop k xs))"

definition array_splice :: "'a list \<Rightarrow> int \<Rightarrow> int \<Rightarrow> 'a list \<Rightarrow> 'a list" where
  "array_splice xs a n items =
     (let k = relIndex a (length xs);
          d = min (nat (max n 0)) (length xs - k)
      in take k xs @ items @ drop (k + d) xs)"

section \<open>Line differ\<close>

record changeRange =
  start :: nat
  endOld :: int
  endNew :: int

text \<open>First loop of \<^verbatim>\<open>findChangedRange\<close>: advance over the common prefix.\<close>

function scanPrefix :: "'a list \<Rightarrow> 'a list \<Rightarrow> nat \<Rightarrow> nat \<Rightarrow> nat" where
  "scanPrefix oldLines newLines minLen lo =
     (if lo < minLen \<and> oldLines ! lo = newLines ! lo
      then scanPrefix oldLines newLines minLen (lo + 1)
      else lo)"
  by pat_completeness auto
termination
  by (relation "measure (\<lambda>(oldLines, newLines, minLen, lo). minLen - lo)") auto

text \<open>Second loop: walk both ends backwards while the lines agree.\<close>

function scanSuffix :: "'a list \<Rightarrow> 'a list \<Rightarrow> nat \<Rightarrow> int \<Rightarrow> int \<Rightarrow> int \<times> int" where
  "scanSuffix oldLines newLines lo eo en =
     (if eo \<ge> int lo \<and> en \<ge> int lo \<and> oldLines ! nat eo = newLines ! nat en
      then scanSuffix oldLines newLines lo (eo - 1) (en - 1)
      else (eo, en))"
  by pat_completeness auto
termination
  by (relation "measure (\<lambda>(oldLines, newLines, lo, eo, en). nat (eo + 1))") auto

definition findChangedRange :: "'a list \<Rightarrow> 'a list \<Rightarrow> changeRange option" where
  "findChangedRange oldLines newLines =
     (let minLen = min (length oldLines) (length newLines);
          lo = scanPrefix oldLines newLines minLen 0
      in if lo = length oldLines \<and> lo = length newLines then None
         else (case scanSuffix oldLines newLines lo
                      (int (length oldLines) - 1) (int (length newLines) - 1) of
                 (eo, en) \<Rightarrow> Some \<lparr>start = lo, endOld = eo, endNew = en\<rparr>))"

declare scanPrefix.simps [simp del]
declare scanSuffix.simps [simp del]

section \<open>Tokenizer\<close>

subsection \<open>The regular expression and its backtracking matcher\<close>

text \<open>
  The token regex of the source is
  \<^verbatim>\<open>/("(?:\\.|[^"\\])*")|(-?\d+(?:\.\d+)?(?:[eE][+-]?\d+)?)|\b(true|false|null)\b|([{}\[\]:,])/g\<close>.
  It is embedded as a syntax tree, and matched as the language definition prescribes:
  alternatives are tried left to right, quantifiers are greedy, an iteration of a
  quantifier with minimum zero that consumes nothing is rejected, and the first success
  in backtracking order is the match.  \<open>rmatch r s p c\<close> lists, in backtracking order,
  every end index and capture state reachable by matching \<open>r\<close> in \<open>s\<close> from index \<open>p\<close>
  with captures \<open>c\<close>; its head is the match the engine reports.  A capture is the pair
  of the start and the end index of the text its group matched.  The token regex has no
  capture group inside a quantifier, so the clearing of such captures at the start of an
  iteration is not part of the model.

  \<open>Cls f\<close> stands for a character class or class escape with membership test \<open>f\<close>:
  \<^verbatim>\<open>.\<close> is every code unit that is no line terminator, \<^verbatim>\<open>\d\<close> is a decimal digit, a
  negated class such as \<^verbatim>\<open>[^"\\]\<close> is the complement of its members.  \<open>WordB\<close> is
  \<^verbatim>\<open>\b\<close>: exactly one of the code units before and at the position is a word character,
  a position outside the string counting as none.  In the case of \<open>Star\<close> the test
  \<open>p < q\<close> rejects the empty iteration; the test \<open>q \<le> length s\<close> holds of every match
  (lemma \<open>rmatch_Star_unfold\<close> below) and is there for the termination proof.
\<close>

type_synonym caps = "nat \<rightharpoonup> nat \<times> nat"

datatype regex =
    Eps
  | Lit cu
  | Cls "cu \<Rightarrow> bool"
  | WordB
  | Seq regex regex
  | Alt regex regex
  | Opt regex
  | Star regex
  | Grp nat regex

definition isLineTerminator :: "cu \<Rightarrow> bool" where
  "isLineTerminator c = (c = 0x0A \<or> c = 0x0D \<or> c = 0x2028 \<or> c = 0x2029)"

definition isDigit :: "cu \<Rightarrow> bool" where
  "isDigit c = (0x30 \<le> c \<and> c \<le> 0x39)"

definition isWordChar :: "cu \<Rightarrow> bool" where
  "isWordChar c = ((0x61 \<le> c \<and> c \<le> 0x7A) \<or> (0x41 \<le> c \<and> c \<le> 0x5A) \<or> isDigit c \<or> c = 0x5F)"

definition isWordCharAt :: "jsstring \<Rightarrow> int \<Rightarrow> bool" where
  "isWordCharAt s e = (if e = -1 \<or> e = int (length s) then False else isWordChar (s ! nat e))"

function rmatch :: "regex \<Rightarrow> jsstring \<Rightarrow> nat \<Rightarrow> caps \<Rightarrow> (nat \<times> caps) list" where
  "rmatch Eps s p c = [(p, c)]"
| "rmatch (Lit a) s p c = (if p < length s \<and> s ! p = a then [(p + 1, c)] else [])"
| "rmatch (Cls f) s p c = (if p < length s \<and> f (s ! p) then [(p + 1, c)] else [])"
| "rmatch WordB s p c =
     (if isWordCharAt s (int p - 1) \<noteq> isWordCharAt s (int p) then [(p, c)] else [])"
| "rmatch (Seq r1 r2) s p c = concat (map (\<lambda>(q, d). rmatch r2 s q d) (rmatch r1 s p c))"
| "rmatch (Alt r1 r2) s p c = rmatch r1 s p c @ rmatch r2 s p c"
| "rmatch (Opt r) s p c = filter (\<lambda>(q, d). q \<noteq> p) (rmatch r s p c) @ [(p, c)]"
| "rmatch (Star r) s p c =
     concat (map (\<lambda>(q, d). rmatch (Star r) s q d)
                 (filter (\<lambda>(q, d). p < q \<and> q \<le> length s) (rmatch r s p c))) @ [(p, c)]"
| "rmatch (Grp k r) s p c = map (\<lambda>(q, d). (q, d(k \<mapsto> (p, q)))) (rmatch r s p c)"
  by pat_completeness auto
termination
  by (relation "measures [\<lambda>(r, s, p, c). size r, \<lambda>(r, s, p, c). length s - p]") auto

text \<open>\<^verbatim>\<open>r+\<close> is one mandatory iteration followed by \<^verbatim>\<open>r*\<close>; a literal word is the
  sequence of its characters.\<close>

definition Plus :: "regex \<Rightarrow> regex" where
  "Plus r = Seq r (Star r)"

fun Lits :: "jsstring \<Rightarrow> regex" where
  "Lits [] = Eps"
| "Lits (a # as) = Seq (Lit a) (Lits as)"

text \<open>The four alternatives of the token regex, each the body of one capture group:
  \<^verbatim>\<open>"(?:\\.|[^"\\])*"\<close>, \<^verbatim>\<open>-?\d+(?:\.\d+)?(?:[eE][+-]?\d+)?\<close>, \<^verbatim>\<open>true|false|null\<close> and
  \<^verbatim>\<open>[{}\[\]:,]\<close>.\<close>

definition stringRegex :: regex where
  "stringRegex =
     Seq (Lit DQUOTE)
       (Seq (Star (Alt (Seq (Lit BACKSLASH) (Cls (\<lambda>c. \<not> isLineTerminator c)))
                       (Cls (\<lambda>c. c \<noteq> DQUOTE \<and> c \<noteq> BACKSLASH))))
            (Lit DQUOTE))"

definition numberRegex :: regex where
  "numberRegex =
     Seq (Opt (Lit 0x2D))
       (Seq (Plus (Cls isDigit))
         (Seq (Opt (Seq (Lit 0x2E) (Plus (Cls isDigit))))
              (Opt (Seq (Cls (\<lambda>c. c = 0x65 \<or> c = 0x45))
                     (Seq (Opt (Cls (\<lambda>c. c = 0x2B \<or> c = 0x2D))) (Plus (Cls isDigit)))))))"

definition literalRegex :: regex where
  "literalRegex = Alt (Lits (js ''true'')) (Alt (Lits (js ''false'')) (Lits (js ''null'')))"

definition punctuationRegex :: regex where
  "punctuationRegex = Cls (\<lambda>c. c \<in> set (js ''{}[]:,''))"

definition tokenRegex :: regex where
  "tokenRegex =
     Alt (Grp 1 stringRegex)
       (Alt (Grp 2 numberRegex)
         (Alt (Seq WordB (Seq (Grp 3 literalRegex) WordB))
              (Grp 4 punctuationRegex)))"

declare rmatch.simps [simp del]

subsection \<open>Every match of the token regex consumes a character\<close>

text \<open>
  \<open>minWidth r\<close> is a lower bound on the number of code units a match of \<open>r\<close> consumes.
  A match never ends before it starts nor behind the end of the string, and a match of
  the token regex is never empty; the scan loop of \<open>tokenizeLine\<close> terminates for this
  reason.
\<close>

fun minWidth :: "regex \<Rightarrow> nat" where
  "minWidth Eps = 0"
| "minWidth (Lit a) = 1"
| "minWidth (Cls f) = 1"
| "minWidth WordB = 0"
| "minWidth (Seq r1 r2) = minWidth r1 + minWidth r2"
| "minWidth (Alt r1 r2) = min (minWidth r1) (minWidth r2)"
| "minWidth (Opt r) = 0"
| "minWidth (Star r) = 0"
| "minWidth (Grp k r) = minWidth r"

lemma rmatch_lower:
  "(q, d) \<in> set (rmatch r s p c) \<Longrightarrow> p + minWidth r \<le> q"
proof (induction r s p c arbitrary: q d rule: rmatch.induct)
  case (5 r1 r2 s p c)
  from "5.prems" obtain q1 d1 where a: "(q1, d1) \<in> set (rmatch r1 s p c)"
    and b: "(q, d) \<in> set (rmatch r2 s q1 d1)"
    by (auto simp: rmatch.simps)
  from "5.IH"(1)[OF a] "5.IH"(2)[OF a refl b] show ?case by simp
next
  case (6 r1 r2 s p c)
  then show ?case by (fastforce simp: rmatch.simps)
next
  case (7 r s p c)
  then show ?case by (fastforce simp: rmatch.simps)
next
  case (8 r s p c)
  from "8.prems" consider "q = p" | q1 d1 where "(q1, d1) \<in> set (rmatch r s p c)" "p < q1" "q1 \<le> length s"
        "(q, d) \<in> set (rmatch (Star r) s q1 d1)"
    by (subst (asm) rmatch.simps) auto
  then show ?case
  proof cases
    case 1 then show ?thesis by simp
  next
    case 2
    have m: "(q1, d1) \<in> set (filter (\<lambda>(q, d). p < q \<and> q \<le> length s) (rmatch r s p c))"
      using 2 by simp
    from "8.IH"(2)[OF m refl 2(4)] 2 show ?thesis by simp
  qed
qed (auto simp: rmatch.simps split: if_splits)

lemma rmatch_upper:
  "(q, d) \<in> set (rmatch r s p c) \<Longrightarrow> p \<le> length s \<Longrightarrow> q \<le> length s"
proof (induction r s p c arbitrary: q d rule: rmatch.induct)
  case (5 r1 r2 s p c)
  from "5.prems" obtain q1 d1 where a: "(q1, d1) \<in> set (rmatch r1 s p c)"
    and b: "(q, d) \<in> set (rmatch r2 s q1 d1)"
    by (auto simp: rmatch.simps)
  from "5.IH"(1)[OF a] "5.IH"(2)[OF a refl b] "5.prems"(2) show ?case by simp
next
  case (6 r1 r2 s p c)
  then show ?case by (fastforce simp: rmatch.simps)
next
  case (7 r s p c)
  then show ?case by (fastforce simp: rmatch.simps)
next
  case (8 r s p c)
  from "8.prems" consider "q = p" | q1 d1 where "(q1, d1) \<in> set (rmatch r s p c)" "p < q1" "q1 \<le> length s"
        "(q, d) \<in> set (rmatch (Star r) s q1 d1)"
    by (subst (asm) rmatch.simps) auto
  then show ?case
  proof cases
    case 1 with "8.prems" show ?thesis by simp
  next
    case 2
    have m: "(q1, d1) \<in> set (filter (\<lambda>(q, d). p < q \<and> q \<le> length s) (rmatch r s p c))"
      using 2 by simp
    from "8.IH"(2)[OF m refl 2(4)] 2 show ?thesis by simp
  qed
qed (auto simp: rmatch.simps split: if_splits)

lemma minWidth_tokenRegex: "minWidth tokenRegex = 1"
  by (simp add: tokenRegex_def stringRegex_def numberRegex_def literalRegex_def
      punctuationRegex_def Plus_def js_def)

subsection \<open>The scan loop and the key pass\<close>

text \<open>
  \<^verbatim>\<open>tokenRegex.exec(line)\<close> of a global regex: starting at \<^verbatim>\<open>lastIndex\<close> (here \<open>i\<close>), the
  first index at which the regex matches; the result is the index of the match, its end
  (the new \<^verbatim>\<open>lastIndex\<close>) and the captures, or \<open>None\<close> for \<^verbatim>\<open>null\<close>.
\<close>

function exec :: "regex \<Rightarrow> jsstring \<Rightarrow> nat \<Rightarrow> (nat \<times> nat \<times> caps) option" where
  "exec r s i =
     (if i > length s then None
      else (case rmatch r s i Map.empty of
              [] \<Rightarrow> exec r s (i + 1)
            | (e, d) # _ \<Rightarrow> Some (i, e, d)))"
  by pat_completeness auto
termination
  by (relation "measure (\<lambda>(r, s, i). length s + 1 - i)") auto

declare exec.simps [simp del]

lemma exec_Some:
  "exec r s i = Some (idx, e, d) \<Longrightarrow>
     i \<le> idx \<and> idx \<le> length s \<and> (e, d) \<in> set (rmatch r s idx Map.empty)"
proof (induction r s i rule: exec.induct)
  case (1 r s i)
  show ?case
  proof (cases "i > length s")
    case True
    with "1.prems" show ?thesis by (subst (asm) exec.simps) simp
  next
    case False
    show ?thesis
    proof (cases "rmatch r s i Map.empty")
      case Nil
      with False "1.prems" have "exec r s (i + 1) = Some (idx, e, d)"
        by (subst (asm) exec.simps) simp
      from "1.IH"[OF False Nil this] show ?thesis by simp
    next
      case (Cons a list)
      with False "1.prems" show ?thesis
        by (subst (asm) exec.simps) (auto split: prod.splits)
    qed
  qed
qed

lemma exec_tokenRegex:
  assumes "exec tokenRegex s i = Some (idx, e, d)"
  shows "i \<le> idx" "idx < e" "e \<le> length s"
proof -
  from exec_Some[OF assms] have a: "i \<le> idx" "idx \<le> length s"
    and m: "(e, d) \<in> set (rmatch tokenRegex s idx Map.empty)" by simp_all
  show "i \<le> idx" by fact
  from rmatch_lower[OF m] show "idx < e" by (simp add: minWidth_tokenRegex)
  from rmatch_upper[OF m a(2)] show "e \<le> length s" .
qed

text \<open>
  A token is \<^verbatim>\<open>{type, text}\<close>.  \<open>capture s d k\<close> is \<^verbatim>\<open>m[k]\<close>, \<open>None\<close> when the group
  did not take part in the match (\<^verbatim>\<open>undefined\<close>); \<open>truthy\<close> keeps a capture that is a
  non-empty string, as the tests \<^verbatim>\<open>if (m[1]) ... else if (m[2]) ...\<close> do.  \<open>matchToken\<close>
  is the token that this chain of tests pushes for a match, if any.
\<close>

datatype tokenType = Plain | String | Key | Number | Boolean | Null | Punctuation

record token =
  tok_type :: tokenType
  tok_text :: jsstring

definition capture :: "jsstring \<Rightarrow> caps \<Rightarrow> nat \<Rightarrow> jsstring option" where
  "capture s d k = map_option (\<lambda>(a, b). array_slice s (int a) (int b)) (d k)"

definition truthy :: "jsstring option \<Rightarrow> jsstring option" where
  "truthy g = (case g of Some (x # xs) \<Rightarrow> Some (x # xs) | _ \<Rightarrow> None)"

definition matchToken :: "jsstring \<Rightarrow> caps \<Rightarrow> token list" where
  "matchToken line d =
     (case truthy (capture line d 1) of
        Some t \<Rightarrow> [\<lparr>tok_type = String, tok_text = t\<rparr>]
      | None \<Rightarrow>
     (case truthy (capture line d 2) of
        Some t \<Rightarrow> [\<lparr>tok_type = Number, tok_text = t\<rparr>]
      | None \<Rightarrow>
     (case truthy (capture line d 3) of
        Some t \<Rightarrow> [\<lparr>tok_type = (if t = js ''null'' then Null else Boolean), tok_text = t\<rparr>]
      | None \<Rightarrow>
     (case truthy (capture line d 4) of
        Some t \<Rightarrow> [\<lparr>tok_type = Punctuation, tok_text = t\<rparr>]
      | None \<Rightarrow> []))))"

text \<open>
  The \<^verbatim>\<open>while\<close> loop of \<open>tokenizeLine\<close> with the statement behind it.  The loop sets
  \<^verbatim>\<open>last = tokenRegex.lastIndex\<close> after every match and \<^verbatim>\<open>lastIndex\<close> is 0 at the start,
  so the search always resumes at \<open>lastEnd\<close>, the end of the previous match.
\<close>

function scanLoop :: "jsstring \<Rightarrow> nat \<Rightarrow> token list \<Rightarrow> token list" where
  "scanLoop line lastEnd tokens =
     (case exec tokenRegex line lastEnd of
        Some (idx, e, d) \<Rightarrow>
          scanLoop line e
            ((if idx > lastEnd
              then tokens @ [\<lparr>tok_type = Plain, tok_text = array_slice line (int lastEnd) (int idx)\<rparr>]
              else tokens) @ matchToken line d)
      | None \<Rightarrow>
          (if lastEnd < length line
           then tokens @ [\<lparr>tok_type = Plain,
                           tok_text = array_slice line (int lastEnd) (int (length line))\<rparr>]
           else tokens))"
  by pat_completeness auto
termination
proof (relation "measure (\<lambda>(line, lastEnd, tokens). length line - lastEnd)")
  show "wf (measure (\<lambda>(line, lastEnd, tokens). length line - lastEnd))" by simp
next
  fix line :: jsstring and lastEnd :: nat and tokens :: "token list" and x2 idx y e d
  assume "exec tokenRegex line lastEnd = Some x2" "(idx, y) = x2" "(e, d) = y"
  then have "exec tokenRegex line lastEnd = Some (idx, e, d)" by simp
  from exec_tokenRegex[OF this]
  show "((line, e, (if lastEnd < idx
           then tokens @ [\<lparr>tok_type = Plain, tok_text = array_slice line (int lastEnd) (int idx)\<rparr>]
           else tokens) @ matchToken line d), line, lastEnd, tokens)
        \<in> measure (\<lambda>(line, lastEnd, tokens). length line - lastEnd)"
    by simp
qed

declare scanLoop.simps [simp del]

text \<open>
  The key pass.  \<open>blank t\<close> is \<^verbatim>\<open>/^\s*$/.test(t)\<close>: every code unit of \<open>t\<close> is white space
  or a line terminator.  \<open>skipBlank\<close> is the inner \<^verbatim>\<open>while\<close> loop over \<open>j\<close>, \<open>markKey\<close>
  the body of the \<^verbatim>\<open>for\<close> loop and \<open>markKeys\<close> the \<^verbatim>\<open>for\<close> loop over
  \<^verbatim>\<open>i < tokens.length - 1\<close>.
\<close>

definition isWhiteSpace :: "cu \<Rightarrow> bool" where
  "isWhiteSpace c =
     (c = 0x09 \<or> c = 0x0B \<or> c = 0x0C \<or> c = 0x20 \<or> c = 0xA0 \<or> c = 0x1680
      \<or> (0x2000 \<le> c \<and> c \<le> 0x200A) \<or> c = 0x202F \<or> c = 0x205F \<or> c = 0x3000
      \<or> c = 0xFEFF \<or> isLineTerminator c)"

definition blank :: "jsstring \<Rightarrow> bool" where
  "blank t = list_all isWhiteSpace t"

function skipBlank :: "token list \<Rightarrow> nat \<Rightarrow> nat" where
  "skipBlank tokens j =
     (if j < length tokens \<and> tok_type (tokens ! j) = Plain \<and> blank (tok_text (tokens ! j))
      then skipBlank tokens (j + 1)
      else j)"
  by pat_completeness auto
termination
  by (relation "measure (\<lambda>(tokens, j). length tokens - j)") auto

declare skipBlank.simps [simp del]

definition markKey :: "token list \<Rightarrow> nat \<Rightarrow> token list" where
  "markKey tokens i =
     (if tok_type (tokens ! i) = String
      then (let j = skipBlank tokens (i + 1)
            in if j < length tokens \<and> tok_type (tokens ! j) = Punctuation
                  \<and> tok_text (tokens ! j) = js '':''
               then tokens[i := (tokens ! i)\<lparr>tok_type := Key\<rparr>]
               else tokens)
      else tokens)"

function markKeys :: "token list \<Rightarrow> nat \<Rightarrow> token list" where
  "markKeys tokens i =
     (if int i < int (length tokens) - 1
      then markKeys (markKey tokens i) (i + 1)
      else tokens)"
  by pat_completeness auto
termination
  by (relation "measure (\<lambda>(tokens, i). length tokens - i)") (auto simp: markKey_def Let_def)

declare markKeys.simps [simp del]

definition tokenizeLine :: "jsstring \<Rightarrow> token list" where
  "tokenizeLine line = markKeys (scanLoop line 0 []) 0"

lemmas regex_defs = tokenRegex_def stringRegex_def numberRegex_def literalRegex_def
      punctuationRegex_def Plus_def js_def DQUOTE_def BACKSLASH_def isDigit_def isLineTerminator_def
      isWordCharAt_def isWordChar_def
lemmas tok_defs = tokenizeLine_def scanLoop.simps exec.simps rmatch.simps markKeys.simps markKey_def skipBlank.simps
   matchToken_def capture_def truthy_def array_slice_def relIndex_def blank_def isWhiteSpace_def

subsection \<open>Rendering a token list as HTML\<close>

text \<open>
  \<open>replaceAll c rep s\<close> is \<^verbatim>\<open>s.replace(/c/g, rep)\<close> for a single character \<open>c\<close>;
  \<open>escapeHtml\<close> replaces \<^verbatim>\<open>&\<close> first, then \<^verbatim>\<open><\<close>, then \<^verbatim>\<open>>\<close>.  The cache holds for every
  line the HTML string \<open>render l\<close>.
\<close>

definition replaceAll :: "cu \<Rightarrow> jsstring \<Rightarrow> jsstring \<Rightarrow> jsstring" where
  "replaceAll c rep s = concat (map (\<lambda>x. if x = c then rep else [x]) s)"

definition escapeHtml :: "jsstring \<Rightarrow> jsstring" where
  "escapeHtml s =
     replaceAll 0x3E (js ''&gt;'') (replaceAll 0x3C (js ''&lt;'') (replaceAll 0x26 (js ''&amp;'') s))"

fun typeName :: "tokenType \<Rightarrow> jsstring" where
  "typeName Plain = js ''plain''"
| "typeName String = js ''string''"
| "typeName Key = js ''key''"
| "typeName Number = js ''number''"
| "typeName Boolean = js ''boolean''"
| "typeName Null = js ''null''"
| "typeName Punctuation = js ''punctuation''"

definition tokenHtml :: "token \<Rightarrow> jsstring" where
  \<open>tokenHtml t =
     (if tok_type t = Plain then escapeHtml (tok_text t)
      else js ''<span class="token '' @ typeName (tok_type t) @ js ''">''
           @ escapeHtml (tok_text t) @ js ''</span>'')\<close>

definition tokensToHtml :: "token list \<Rightarrow> jsstring" where
  "tokensToHtml tokens = concat (map tokenHtml tokens)"

abbreviation render :: "jsstring \<Rightarrow> jsstring" where
  "render l \<equiv> tokensToHtml (tokenizeLine l)"

section \<open>Editor state and the update cycle\<close>

text \<open>
  The fields of the \<^verbatim>\<open>state\<close> object (\<open>docText\<close> is its field \<^verbatim>\<open>text\<close>); the getters
  \<^verbatim>\<open>lines\<close>, \<^verbatim>\<open>totalLines\<close> and \<^verbatim>\<open>docHeightPx\<close> are functions of the state.  Pixel
  measures are real numbers.  \<^verbatim>\<open>LINE_HEIGHT\<close> is read from the style sheet when the editor
  starts (\<^verbatim>\<open>parseInt(...) || 28\<close>, an integer that is not zero); it is a parameter of the
  functions that use it.
\<close>

record state =
  docText :: jsstring
  tokens :: "jsstring list"
  selectionStart :: nat
  selectionEnd :: nat
  scrollTop :: real
  scrollLeft :: real
  viewportHeight :: real
  viewportWidth :: real

definition lines :: "state \<Rightarrow> jsstring list" where
  "lines st = splitLines (docText st)"

definition totalLines :: "state \<Rightarrow> nat" where
  "totalLines st = length (lines st)"

definition docHeightPx :: "int \<Rightarrow> state \<Rightarrow> int" where
  "docHeightPx LINE_HEIGHT st = int (totalLines st) * LINE_HEIGHT"

definition INITIAL_TEXT :: jsstring where
  \<open>INITIAL_TEXT = js ''{\<newline>  "message": "Welcome to Phase 2!",\<newline>  "number": 42,\<newline>  "flag": true,\<newline>  "nil": null,\<newline>  "arr": [\<newline>    "one",\<newline>    "two",\<newline>    "three"\<newline>  ]\<newline>}\<newline>''\<close>

definition initState :: state where
  "initState =
     \<lparr>docText = INITIAL_TEXT,
      tokens = map (\<lambda>l. tokensToHtml (tokenizeLine l)) (splitLines INITIAL_TEXT),
      selectionStart = length INITIAL_TEXT,
      selectionEnd = length INITIAL_TEXT,
      scrollTop = 0, scrollLeft = 0, viewportHeight = 0, viewportWidth = 0\<rparr>"

text \<open>
  The events that change the state: a viewport measurement, a scroll event, and an input
  event that runs \<open>syncFromInput\<close> with the value and the selection of the text area.
  Rendering reads the state and does not change it.
\<close>

definition measureViewport :: "state \<Rightarrow> real \<Rightarrow> real \<Rightarrow> state" where
  "measureViewport st clientHeight clientWidth =
     st\<lparr>viewportHeight := clientHeight, viewportWidth := clientWidth\<rparr>"

definition onScroll :: "state \<Rightarrow> real \<Rightarrow> real \<Rightarrow> state" where
  "onScroll st y x = st\<lparr>scrollTop := y, scrollLeft := x\<rparr>"

definition retokenizeRange :: "state \<Rightarrow> jsstring list \<Rightarrow> nat \<Rightarrow> int \<Rightarrow> state" where
  "retokenizeRange st newLines start' endNew' =
     (let newTokens = map (\<lambda>l. tokensToHtml (tokenizeLine l))
                          (array_slice newLines (int start') (endNew' + 1))
      in st\<lparr>tokens := array_splice (tokens st) (int start') (endNew' - int start' + 1) newTokens\<rparr>)"

text \<open>
  The fallback loop \<^verbatim>\<open>for (let i = state.tokens.length; i < newLines.length; i++)
  state.tokens[i] = ...\<close>: the index \<open>i\<close> is the length of the cache at every
  assignment, so each assignment appends one entry.
\<close>

function appendMissing :: "jsstring list \<Rightarrow> jsstring list \<Rightarrow> jsstring list" where
  "appendMissing toks newLines =
     (if length toks < length newLines
      then appendMissing (toks @ [tokensToHtml (tokenizeLine (newLines ! length toks))]) newLines
      else toks)"
  by pat_completeness auto
termination
  by (relation "measure (\<lambda>(toks, newLines). length newLines - length toks)") auto

declare appendMissing.simps [simp del]

definition syncFromInput :: "state \<Rightarrow> jsstring \<Rightarrow> nat \<Rightarrow> nat \<Rightarrow> state" where
  "syncFromInput st newText selStart selEnd =
     (let oldLines = lines st;
          newLines = splitLines newText;
          changed = findChangedRange oldLines newLines;
          st1 = st\<lparr>docText := newText, selectionStart := selStart, selectionEnd := selEnd\<rparr>
      in case changed of
           None \<Rightarrow> st1
         | Some r \<Rightarrow>
             (let st2 = retokenizeRange st1 newLines (start r) (endNew r)
              in if length (tokens st2) > length newLines
                 then st2\<lparr>tokens := take (length newLines) (tokens st2)\<rparr>
                 else if length (tokens st2) < length newLines
                 then st2\<lparr>tokens := appendMissing (tokens st2) newLines\<rparr>
                 else st2))"

text \<open>The states the editor can be in: the initial state and what the events make of it.\<close>

inductive reachable :: "state \<Rightarrow> bool" where
  reach_init: "reachable initState"
| reach_measure: "reachable st \<Longrightarrow> reachable (measureViewport st h w)"
| reach_scroll: "reachable st \<Longrightarrow> reachable (onScroll st t l)"
| reach_sync: "reachable st \<Longrightarrow> reachable (syncFromInput st newText a b)"

section \<open>Viewport calculator\<close>

text \<open>\<open>computeVisibleRange\<close> returns the pair of \<^verbatim>\<open>first\<close> and \<^verbatim>\<open>last\<close>.\<close>

definition RENDER_BUFFER :: int where
  "RENDER_BUFFER = 8"

definition computeVisibleRange :: "int \<Rightarrow> state \<Rightarrow> int \<times> int" where
  "computeVisibleRange LINE_HEIGHT st =
     (let first = max 0 (\<lfloor>scrollTop st / real_of_int LINE_HEIGHT\<rfloor> - RENDER_BUFFER);
          visibleCount = \<lceil>viewportHeight st / real_of_int LINE_HEIGHT\<rceil> + 2 * RENDER_BUFFER;
          lastLine = min (int (totalLines st) - 1) (first + visibleCount - 1)
      in (first, lastLine))"

text \<open>Concrete states: the document with the lines \<open>a\<close> and \<open>b\<close> and an exact cache;
  a five-line document scrolled by 100 pixels in a viewport of 56 pixels; and an empty
  document whose scroll offset is still 252 pixels.\<close>

definition stAB :: state where
  "stAB = \<lparr>docText = js ''a\<newline>b'', tokens = [render (js ''a''), render (js ''b'')],
     selectionStart = 3, selectionEnd = 3, scrollTop = 0, scrollLeft = 0,
     viewportHeight = 0, viewportWidth = 0\<rparr>"

definition stFive :: state where
  "stFive = \<lparr>docText = js ''a\<newline>b\<newline>c\<newline>d\<newline>e'', tokens = map render (splitLines (js ''a\<newline>b\<newline>c\<newline>d\<newline>e'')),
     selectionStart = 0, selectionEnd = 0,
     scrollTop = 100, scrollLeft = 0, viewportHeight = 56, viewportWidth = 0\<rparr>"

definition stScrolled :: state where
  "stScrolled = \<lparr>docText = [], tokens = [[]], selectionStart = 0, selectionEnd = 0,
     scrollTop = 252, scrollLeft = 0, viewportHeight = 0, viewportWidth = 0\<rparr>"

section \<open>Properties of the line differ\<close>

lemma scanPrefix_ge: "lo \<le> scanPrefix oldLines newLines minLen lo"
proof (induction oldLines newLines minLen lo rule: scanPrefix.induct)
  case (1 oldLines newLines minLen lo)
  show ?case
  proof (cases "lo < minLen \<and> oldLines ! lo = newLines ! lo")
    case True
    with "1" show ?thesis by (subst scanPrefix.simps) auto
  next
    case False
    then show ?thesis by (subst scanPrefix.simps) auto
  qed
qed

lemma scanPrefix_le:
  "lo \<le> minLen \<Longrightarrow> scanPrefix oldLines newLines minLen lo \<le> minLen"
proof (induction oldLines newLines minLen lo rule: scanPrefix.induct)
  case (1 oldLines newLines minLen lo)
  show ?case
  proof (cases "lo < minLen \<and> oldLines ! lo = newLines ! lo")
    case True
    with "1" show ?thesis by (subst scanPrefix.simps) auto
  next
    case False
    with "1.prems" show ?thesis by (subst scanPrefix.simps) auto
  qed
qed

lemma scanPrefix_equal:
  "\<forall>i < lo. oldLines ! i = newLines ! i \<Longrightarrow>
   i < scanPrefix oldLines newLines minLen lo \<Longrightarrow> oldLines ! i = newLines ! i"
proof (induction oldLines newLines minLen lo rule: scanPrefix.induct)
  case (1 oldLines newLines minLen lo)
  show ?case
  proof (cases "lo < minLen \<and> oldLines ! lo = newLines ! lo")
    case True
    then have step: "scanPrefix oldLines newLines minLen lo
        = scanPrefix oldLines newLines minLen (lo + 1)"
      by (subst scanPrefix.simps) auto
    have "\<forall>i < lo + 1. oldLines ! i = newLines ! i"
      using True "1.prems"(1) by (auto simp: less_Suc_eq)
    with "1.IH" True "1.prems"(2) step show ?thesis by simp
  next
    case False
    then have "scanPrefix oldLines newLines minLen lo = lo"
      by (subst scanPrefix.simps) auto
    with "1.prems" show ?thesis by simp
  qed
qed

lemma scanSuffix_aligned:
  "scanSuffix oldLines newLines lo eo en = (eo', en') \<Longrightarrow>
   (\<forall>k\<ge>1. eo + k < int (length oldLines) \<and> en + k < int (length newLines)
      \<longrightarrow> oldLines ! nat (eo + k) = newLines ! nat (en + k)) \<Longrightarrow>
   int lo - 1 \<le> eo \<Longrightarrow> int lo - 1 \<le> en \<Longrightarrow>
   (\<forall>k\<ge>1. eo' + k < int (length oldLines) \<and> en' + k < int (length newLines)
      \<longrightarrow> oldLines ! nat (eo' + k) = newLines ! nat (en' + k))
   \<and> int lo - 1 \<le> eo' \<and> int lo - 1 \<le> en' \<and> eo - eo' = en - en' \<and> eo' \<le> eo"
proof (induction oldLines newLines lo eo en rule: scanSuffix.induct)
  case (1 oldLines newLines lo eo en)
  show ?case
  proof (cases "eo \<ge> int lo \<and> en \<ge> int lo \<and> oldLines ! nat eo = newLines ! nat en")
    case True
    then have step: "scanSuffix oldLines newLines lo (eo - 1) (en - 1) = (eo', en')"
      using "1.prems"(1) by (subst (asm) scanSuffix.simps) simp
    have inv: "\<forall>k\<ge>1. eo - 1 + k < int (length oldLines) \<and> en - 1 + k < int (length newLines)
        \<longrightarrow> oldLines ! nat (eo - 1 + k) = newLines ! nat (en - 1 + k)"
    proof (intro allI impI)
      fix k :: int
      assume k: "1 \<le> k"
        and b: "eo - 1 + k < int (length oldLines) \<and> en - 1 + k < int (length newLines)"
      show "oldLines ! nat (eo - 1 + k) = newLines ! nat (en - 1 + k)"
      proof (cases "k = 1")
        case True
        with \<open>eo \<ge> int lo \<and> en \<ge> int lo \<and> oldLines ! nat eo = newLines ! nat en\<close>
        show ?thesis by simp
      next
        case False
        with k have "1 \<le> k - 1" by simp
        moreover have "eo + (k - 1) < int (length oldLines) \<and> en + (k - 1) < int (length newLines)"
          using b by simp
        ultimately have "oldLines ! nat (eo + (k - 1)) = newLines ! nat (en + (k - 1))"
          using "1.prems"(2) by blast
        then show ?thesis by (simp add: algebra_simps)
      qed
    qed
    have "int lo - 1 \<le> eo - 1" "int lo - 1 \<le> en - 1" using True by simp_all
    from "1.IH"[OF True step inv this] show ?thesis by auto
  next
    case False
    then have "eo' = eo" "en' = en"
      using "1.prems"(1) by (subst (asm) scanSuffix.simps, simp)+
    with "1.prems" show ?thesis by simp
  qed
qed

lemma findChangedRange_start:
  assumes "findChangedRange oldLines newLines = Some r"
  shows "start r \<le> length oldLines" "start r \<le> length newLines"
    "\<forall>i < start r. oldLines ! i = newLines ! i"
proof -
  let ?m = "min (length oldLines) (length newLines)"
  have lo: "start r = scanPrefix oldLines newLines ?m 0"
    using assms by (auto simp: findChangedRange_def Let_def split: if_splits prod.splits)
  have "start r \<le> ?m" unfolding lo by (rule scanPrefix_le) simp
  then show "start r \<le> length oldLines" "start r \<le> length newLines" by simp_all
  show "\<forall>i < start r. oldLines ! i = newLines ! i"
    unfolding lo using scanPrefix_equal[of 0 oldLines newLines _ ?m] by simp
qed

lemma findChangedRange_suffix:
  assumes "findChangedRange oldLines newLines = Some r"
  shows "\<forall>k\<ge>1. endOld r + k < int (length oldLines) \<and> endNew r + k < int (length newLines)
      \<longrightarrow> oldLines ! nat (endOld r + k) = newLines ! nat (endNew r + k)"
    and "int (start r) - 1 \<le> endOld r" and "int (start r) - 1 \<le> endNew r"
    and "int (length oldLines) - endOld r = int (length newLines) - endNew r"
    and "endOld r < int (length oldLines)"
proof -
  let ?m = "min (length oldLines) (length newLines)"
  have lo: "start r = scanPrefix oldLines newLines ?m 0"
    using assms by (auto simp: findChangedRange_def Let_def split: if_splits prod.splits)
  have suf: "scanSuffix oldLines newLines (start r)
      (int (length oldLines) - 1) (int (length newLines) - 1) = (endOld r, endNew r)"
    using assms by (auto simp: findChangedRange_def Let_def split: if_splits prod.splits)
  have b: "start r \<le> length oldLines" "start r \<le> length newLines"
    using findChangedRange_start[OF assms] by simp_all
  have "\<forall>k\<ge>1. int (length oldLines) - 1 + k < int (length oldLines)
        \<and> int (length newLines) - 1 + k < int (length newLines)
      \<longrightarrow> oldLines ! nat (int (length oldLines) - 1 + k)
          = newLines ! nat (int (length newLines) - 1 + k)"
    by simp
  from scanSuffix_aligned[OF suf this] b
  have res: "(\<forall>k\<ge>1. endOld r + k < int (length oldLines) \<and> endNew r + k < int (length newLines)
      \<longrightarrow> oldLines ! nat (endOld r + k) = newLines ! nat (endNew r + k))
    \<and> int (start r) - 1 \<le> endOld r \<and> int (start r) - 1 \<le> endNew r
    \<and> int (length oldLines) - 1 - endOld r = int (length newLines) - 1 - endNew r
    \<and> endOld r \<le> int (length oldLines) - 1"
    by simp
  from res show "\<forall>k\<ge>1. endOld r + k < int (length oldLines) \<and> endNew r + k < int (length newLines)
      \<longrightarrow> oldLines ! nat (endOld r + k) = newLines ! nat (endNew r + k)" by blast
  from res show "int (start r) - 1 \<le> endOld r" "int (start r) - 1 \<le> endNew r" by simp_all
  from res show "int (length oldLines) - endOld r = int (length newLines) - endNew r" by simp
  from res show "endOld r < int (length oldLines)" by simp
qed

lemma scanPrefix_same:
  "k \<le> length xs \<Longrightarrow> scanPrefix xs xs (length xs) k = length xs"
proof (induction "length xs - k" arbitrary: k)
  case 0
  then have "k = length xs" by simp
  then show ?case by (subst scanPrefix.simps) simp
next
  case (Suc n)
  then have "k < length xs" by simp
  then have "scanPrefix xs xs (length xs) k = scanPrefix xs xs (length xs) (k + 1)"
    by (subst scanPrefix.simps) simp
  also have "\<dots> = length xs" using Suc by (intro Suc.hyps(1)) auto
  finally show ?case .
qed

lemma findChangedRange_same: "findChangedRange xs xs = None"
  using scanPrefix_same[of 0 xs] by (simp add: findChangedRange_def)

section \<open>Properties of the tokenizer\<close>

subsection \<open>Captures and consumed characters of a match\<close>

text \<open>
  \<open>groups r\<close> are the capture groups of \<open>r\<close>, and \<open>alphabet r x\<close> holds when some
  character position of \<open>r\<close> accepts \<open>x\<close>.  A match leaves the captures of other groups
  alone and consumes only characters of its alphabet.
\<close>

fun groups :: "regex \<Rightarrow> nat set" where
  "groups Eps = {}"
| "groups (Lit a) = {}"
| "groups (Cls f) = {}"
| "groups WordB = {}"
| "groups (Seq r1 r2) = groups r1 \<union> groups r2"
| "groups (Alt r1 r2) = groups r1 \<union> groups r2"
| "groups (Opt r) = groups r"
| "groups (Star r) = groups r"
| "groups (Grp k r) = insert k (groups r)"

fun alphabet :: "regex \<Rightarrow> cu \<Rightarrow> bool" where
  "alphabet Eps x = False"
| "alphabet (Lit a) x = (x = a)"
| "alphabet (Cls f) x = f x"
| "alphabet WordB x = False"
| "alphabet (Seq r1 r2) x = (alphabet r1 x \<or> alphabet r2 x)"
| "alphabet (Alt r1 r2) x = (alphabet r1 x \<or> alphabet r2 x)"
| "alphabet (Opt r) x = alphabet r x"
| "alphabet (Star r) x = alphabet r x"
| "alphabet (Grp k r) x = alphabet r x"

lemma rmatch_Seq_iff:
  "(q, d) \<in> set (rmatch (Seq r1 r2) s p c)
     \<longleftrightarrow> (\<exists>q1 d1. (q1, d1) \<in> set (rmatch r1 s p c) \<and> (q, d) \<in> set (rmatch r2 s q1 d1))"
  by (auto simp: rmatch.simps)

lemma rmatch_Alt_iff:
  "(q, d) \<in> set (rmatch (Alt r1 r2) s p c)
     \<longleftrightarrow> (q, d) \<in> set (rmatch r1 s p c) \<or> (q, d) \<in> set (rmatch r2 s p c)"
  by (auto simp: rmatch.simps)

lemma rmatch_Grp_iff:
  "(q, d) \<in> set (rmatch (Grp k r) s p c)
     \<longleftrightarrow> (\<exists>d'. (q, d') \<in> set (rmatch r s p c) \<and> d = d'(k \<mapsto> (p, q)))"
  by (auto simp: rmatch.simps)

lemma rmatch_WordB_D:
  "(q, d) \<in> set (rmatch WordB s p c) \<Longrightarrow> q = p \<and> d = c"
  by (auto simp: rmatch.simps split: if_splits)

lemma rmatch_Opt_D:
  "(q, d) \<in> set (rmatch (Opt r) s p c) \<Longrightarrow> (q, d) = (p, c) \<or> (q, d) \<in> set (rmatch r s p c)"
  by (auto simp: rmatch.simps)

lemma rmatch_Star_D:
  "(q, d) \<in> set (rmatch (Star r) s p c) \<Longrightarrow>
     (q, d) = (p, c) \<or> (\<exists>q1 d1. (q1, d1) \<in> set (rmatch r s p c) \<and> p < q1 \<and> q1 \<le> length s
         \<and> (q, d) \<in> set (rmatch (Star r) s q1 d1))"
  by (subst (asm) rmatch.simps) auto

lemma rmatch_frame:
  "(q, d) \<in> set (rmatch r s p c) \<Longrightarrow> k \<notin> groups r \<Longrightarrow> d k = c k"
proof (induction r s p c arbitrary: q d rule: rmatch.induct)
  case (5 r1 r2 s p c)
  from "5.prems"(1) obtain q1 d1 where a: "(q1, d1) \<in> set (rmatch r1 s p c)"
    and b: "(q, d) \<in> set (rmatch r2 s q1 d1)" by (auto simp: rmatch_Seq_iff)
  from "5.IH"(1)[OF a] "5.IH"(2)[OF a refl b] "5.prems"(2) show ?case by simp
next
  case (6 r1 r2 s p c)
  then show ?case by (auto simp: rmatch_Alt_iff)
next
  case (7 r s p c)
  from rmatch_Opt_D[OF "7.prems"(1)] "7.IH" "7.prems"(2) show ?case by auto
next
  case (8 r s p c)
  from rmatch_Star_D[OF "8.prems"(1)] show ?case
  proof (elim disjE exE conjE)
    assume "(q, d) = (p, c)" then show ?thesis by simp
  next
    fix q1 d1
    assume a: "(q1, d1) \<in> set (rmatch r s p c)" "p < q1" "q1 \<le> length s"
      and b: "(q, d) \<in> set (rmatch (Star r) s q1 d1)"
    have m: "(q1, d1) \<in> set (filter (\<lambda>(q, d). p < q \<and> q \<le> length s) (rmatch r s p c))"
      using a by simp
    from "8.IH"(1)[OF a(1)] "8.IH"(2)[OF m refl b] "8.prems"(2) show ?thesis by simp
  qed
next
  case (9 k' r s p c)
  then show ?case by (auto simp: rmatch_Grp_iff)
qed (auto simp: rmatch.simps split: if_splits)

lemma rmatch_alphabet:
  "(q, d) \<in> set (rmatch r s p c) \<Longrightarrow> p \<le> i \<Longrightarrow> i < q \<Longrightarrow> alphabet r (s ! i)"
proof (induction r s p c arbitrary: q d i rule: rmatch.induct)
  case (2 a s p c)
  then have "i = p" "s ! p = a" by (auto simp: rmatch.simps split: if_splits)
  then show ?case by simp
next
  case (3 f s p c)
  then have "i = p" "f (s ! p)" by (auto simp: rmatch.simps split: if_splits)
  then show ?case by simp
next
  case (5 r1 r2 s p c)
  from "5.prems"(1) obtain q1 d1 where a: "(q1, d1) \<in> set (rmatch r1 s p c)"
    and b: "(q, d) \<in> set (rmatch r2 s q1 d1)" by (auto simp: rmatch_Seq_iff)
  show ?case
  proof (cases "i < q1")
    case True
    from "5.IH"(1)[OF a "5.prems"(2) True] show ?thesis by simp
  next
    case False
    then have "q1 \<le> i" by simp
    from "5.IH"(2)[OF a refl b this "5.prems"(3)] show ?thesis by simp
  qed
next
  case (6 r1 r2 s p c)
  then show ?case by (auto simp: rmatch_Alt_iff)
next
  case (7 r s p c)
  from rmatch_Opt_D[OF "7.prems"(1)] "7.IH" "7.prems"(2,3) show ?case by auto
next
  case (8 r s p c)
  from rmatch_Star_D[OF "8.prems"(1)] show ?case
  proof (elim disjE exE conjE)
    assume "(q, d) = (p, c)" with "8.prems" show ?thesis by simp
  next
    fix q1 d1
    assume a: "(q1, d1) \<in> set (rmatch r s p c)" "p < q1" "q1 \<le> length s"
      and b: "(q, d) \<in> set (rmatch (Star r) s q1 d1)"
    have m: "(q1, d1) \<in> set (filter (\<lambda>(q, d). p < q \<and> q \<le> length s) (rmatch r s p c))"
      using a by simp
    show ?thesis
    proof (cases "i < q1")
      case True
      from "8.IH"(1)[OF a(1) "8.prems"(2) True] show ?thesis by simp
    next
      case False
      then have "q1 \<le> i" by simp
      from "8.IH"(2)[OF m refl b this "8.prems"(3)] show ?thesis by simp
    qed
  qed
next
  case (9 k' r s p c)
  then show ?case by (auto simp: rmatch_Grp_iff)
qed (auto simp: rmatch.simps split: if_splits)

lemma rmatch_Star_unfold:
  assumes "p \<le> length s"
  shows "rmatch (Star r) s p c =
     concat (map (\<lambda>(q, d). rmatch (Star r) s q d)
                 (filter (\<lambda>(q, d). q \<noteq> p) (rmatch r s p c))) @ [(p, c)]"
proof -
  have "filter (\<lambda>(q, d). p < q \<and> q \<le> length s) (rmatch r s p c)
      = filter (\<lambda>(q, d). q \<noteq> p) (rmatch r s p c)"
  proof (rule filter_cong[OF refl])
    fix x assume x: "x \<in> set (rmatch r s p c)"
    obtain q d where qd: "x = (q, d)" by (cases x)
    from rmatch_lower[of q d r s p c] rmatch_upper[of q d r s p c] x qd assms
    have "p \<le> q" "q \<le> length s" by simp_all
    then show "(case x of (q, d) \<Rightarrow> p < q \<and> q \<le> length s) = (case x of (q, d) \<Rightarrow> q \<noteq> p)"
      unfolding qd by auto
  qed
  then show ?thesis by (subst rmatch.simps) simp
qed

lemma groups_alternatives:
  "groups stringRegex = {}" "groups numberRegex = {}" "groups literalRegex = {}"
  "groups punctuationRegex = {}"
  by (simp_all add: stringRegex_def numberRegex_def literalRegex_def punctuationRegex_def
      Plus_def js_def)

lemma no_groups_empty:
  assumes "(q, d) \<in> set (rmatch r s p Map.empty)" "groups r = {}"
  shows "d = Map.empty"
proof
  fix k show "d k = Map.empty k" using rmatch_frame[OF assms(1), of k] assms(2) by simp
qed

lemma alphabet_no_quote:
  "\<not> alphabet numberRegex DQUOTE" "\<not> alphabet literalRegex DQUOTE"
  "\<not> alphabet punctuationRegex DQUOTE"
  by (simp_all add: numberRegex_def literalRegex_def punctuationRegex_def
      Plus_def js_def DQUOTE_def isDigit_def)

lemma tokenRegex_cases:
  assumes "(e, d) \<in> set (rmatch tokenRegex s p Map.empty)"
  obtains
    (string) c where "(e, c) \<in> set (rmatch stringRegex s p Map.empty)" "d = [1 \<mapsto> (p, e)]"
  | (number) c where "(e, c) \<in> set (rmatch numberRegex s p Map.empty)" "d = [2 \<mapsto> (p, e)]"
  | (literal) c where "(e, c) \<in> set (rmatch literalRegex s p Map.empty)" "d = [3 \<mapsto> (p, e)]"
  | (punctuation) c where "(e, c) \<in> set (rmatch punctuationRegex s p Map.empty)" "d = [4 \<mapsto> (p, e)]"
proof -
  from assms consider
      "(e, d) \<in> set (rmatch (Grp 1 stringRegex) s p Map.empty)"
    | "(e, d) \<in> set (rmatch (Grp 2 numberRegex) s p Map.empty)"
    | "(e, d) \<in> set (rmatch (Seq WordB (Seq (Grp 3 literalRegex) WordB)) s p Map.empty)"
    | "(e, d) \<in> set (rmatch (Grp 4 punctuationRegex) s p Map.empty)"
    unfolding tokenRegex_def rmatch_Alt_iff by blast
  then show ?thesis
  proof cases
    case 1
    then obtain c where c: "(e, c) \<in> set (rmatch stringRegex s p Map.empty)" "d = c(1 \<mapsto> (p, e))"
      by (auto simp: rmatch_Grp_iff)
    from no_groups_empty[OF c(1) groups_alternatives(1)] c string show ?thesis by simp
  next
    case 2
    then obtain c where c: "(e, c) \<in> set (rmatch numberRegex s p Map.empty)" "d = c(2 \<mapsto> (p, e))"
      by (auto simp: rmatch_Grp_iff)
    from no_groups_empty[OF c(1) groups_alternatives(2)] c number show ?thesis by simp
  next
    case 3
    then obtain q1 d1 q2 d2 where a: "(q1, d1) \<in> set (rmatch WordB s p Map.empty)"
      and b: "(q2, d2) \<in> set (rmatch (Grp 3 literalRegex) s q1 d1)"
      and w: "(e, d) \<in> set (rmatch WordB s q2 d2)"
      by (auto simp: rmatch_Seq_iff)
    from rmatch_WordB_D[OF a] rmatch_WordB_D[OF w] b
    have "(e, d) \<in> set (rmatch (Grp 3 literalRegex) s p Map.empty)" by simp
    then obtain c where c: "(e, c) \<in> set (rmatch literalRegex s p Map.empty)" "d = c(3 \<mapsto> (p, e))"
      by (auto simp: rmatch_Grp_iff)
    from no_groups_empty[OF c(1) groups_alternatives(3)] c literal show ?thesis by simp
  next
    case 4
    then obtain c where c: "(e, c) \<in> set (rmatch punctuationRegex s p Map.empty)" "d = c(4 \<mapsto> (p, e))"
      by (auto simp: rmatch_Grp_iff)
    from no_groups_empty[OF c(1) groups_alternatives(4)] c punctuation show ?thesis by simp
  qed
qed


text \<open>A match of the string pattern ends with a double quote behind its opening quote;
  a quote that no further quote follows on the line opens no string.\<close>

lemma rmatch_Lit_D:
  "(q, d) \<in> set (rmatch (Lit a) s p c) \<Longrightarrow> p < length s \<and> s ! p = a \<and> q = p + 1"
  by (auto simp: rmatch.simps split: if_splits)

lemma stringRegex_closing_quote:
  assumes "(e, d) \<in> set (rmatch stringRegex line p c)"
  shows "p + 1 < e \<and> e \<le> length line \<and> line ! p = DQUOTE \<and> line ! (e - 1) = DQUOTE"
proof -
  from assms obtain q1 d1 q2 d2 where
    a: "(q1, d1) \<in> set (rmatch (Lit DQUOTE) line p c)"
    and b: "(q2, d2) \<in> set (rmatch (Star (Alt (Seq (Lit BACKSLASH) (Cls (\<lambda>c. \<not> isLineTerminator c)))
                       (Cls (\<lambda>c. c \<noteq> DQUOTE \<and> c \<noteq> BACKSLASH)))) line q1 d1)"
    and c: "(e, d) \<in> set (rmatch (Lit DQUOTE) line q2 d2)"
    unfolding stringRegex_def rmatch_Seq_iff by blast
  from rmatch_lower[OF b] have "q1 \<le> q2" by simp
  with rmatch_Lit_D[OF a] rmatch_Lit_D[OF c] show ?thesis by auto
qed

lemma last_quote_unterminated:
  assumes "\<forall>i. p < i \<and> i < length line \<longrightarrow> line ! i \<noteq> DQUOTE"
  shows "rmatch stringRegex line p Map.empty = []"
proof (rule ccontr)
  assume "rmatch stringRegex line p Map.empty \<noteq> []"
  then obtain e d where m: "(e, d) \<in> set (rmatch stringRegex line p Map.empty)"
    by (cases "rmatch stringRegex line p Map.empty") auto
  from stringRegex_closing_quote[OF m] have "p < e - 1" "e - 1 < length line" "line ! (e - 1) = DQUOTE"
    by auto
  with assms show False by blast
qed

subsection \<open>The scan loop\<close>

text \<open>
  \<open>located off ts\<close> pairs every token with the offset at which its text starts when the
  first token starts at \<open>off\<close>; \<open>tokenSpanAt ts p\<close> is the token whose text covers
  offset \<open>p\<close>, with its start offset.
\<close>

fun located :: "nat \<Rightarrow> token list \<Rightarrow> (nat \<times> token) list" where
  "located off [] = []"
| "located off (t # ts) = (off, t) # located (off + length (tok_text t)) ts"

definition tokenSpanAt :: "token list \<Rightarrow> nat \<Rightarrow> (nat \<times> token) option" where
  "tokenSpanAt ts p = find (\<lambda>(off, t). off \<le> p \<and> p < off + length (tok_text t)) (located 0 ts)"

definition tokOK :: "jsstring \<Rightarrow> nat \<times> token \<Rightarrow> bool" where
  "tokOK line ot =
     (case ot of (off, t) \<Rightarrow>
        tok_type t = Plain
        \<or> ((tok_type t = String \<or> tok_type t = Key) \<and> rmatch stringRegex line off Map.empty \<noteq> [])
        \<or> ((tok_type t = Number \<or> tok_type t = Boolean \<or> tok_type t = Null
               \<or> tok_type t = Punctuation) \<and> DQUOTE \<notin> set (tok_text t)))"

definition scanInv :: "jsstring \<Rightarrow> nat \<Rightarrow> token list \<Rightarrow> bool" where
  "scanInv line n ts =
     (n \<le> length line \<and> concat (map tok_text ts) = take n line
      \<and> list_all (tokOK line) (located 0 ts) \<and> list_all (\<lambda>t. tok_type t \<noteq> Key) ts)"

lemma located_append:
  "located off (xs @ ys) = located off xs @ located (off + length (concat (map tok_text xs))) ys"
  by (induction xs arbitrary: off) (simp_all add: add.assoc)

lemma array_slice_take_drop:
  "a \<le> b \<Longrightarrow> b \<le> length s \<Longrightarrow> array_slice s (int a) (int b) = take (b - a) (drop a s)"
  by (simp add: array_slice_def relIndex_def Let_def)

lemma take_drop_nonempty: "a < b \<Longrightarrow> b \<le> length s \<Longrightarrow> take (b - a) (drop a s) \<noteq> []"
  by simp

lemma set_take_drop_nth:
  "x \<in> set (take (b - a) (drop a s)) \<Longrightarrow> b \<le> length s \<Longrightarrow> \<exists>i. a \<le> i \<and> i < b \<and> x = s ! i"
proof -
  assume x: "x \<in> set (take (b - a) (drop a s))" and b: "b \<le> length s"
  then obtain j where j: "j < length (take (b - a) (drop a s))" "x = take (b - a) (drop a s) ! j"
    by (auto simp: in_set_conv_nth)
  then have "j < b - a" by simp
  with j b have "x = s ! (a + j)" by simp
  with \<open>j < b - a\<close> show ?thesis by (intro exI[of _ "a + j"]) simp
qed

lemma matchToken_of_match:
  assumes m: "(e, d) \<in> set (rmatch tokenRegex s p Map.empty)" and p: "p \<le> length s"
  shows "\<exists>ty. matchToken s d = [\<lparr>tok_type = ty, tok_text = take (e - p) (drop p s)\<rparr>]
           \<and> ty \<noteq> Key
           \<and> tokOK s (p, \<lparr>tok_type = ty, tok_text = take (e - p) (drop p s)\<rparr>)"
proof -
  have lo: "p < e" using rmatch_lower[OF m] by (simp add: minWidth_tokenRegex)
  have hi: "e \<le> length s" using rmatch_upper[OF m p] .
  let ?t = "take (e - p) (drop p s)"
  obtain x xs where t: "?t = x # xs" using take_drop_nonempty[OF lo hi] by (cases ?t) auto
  have sl: "array_slice s (int p) (int e) = x # xs"
    using array_slice_take_drop[of p e s] lo hi t by simp
  have noq: "DQUOTE \<notin> set ?t" if a: "(e, c) \<in> set (rmatch r s p Map.empty)"
    and na: "\<not> alphabet r DQUOTE" for r c
  proof
    assume "DQUOTE \<in> set ?t"
    from set_take_drop_nth[OF this hi] obtain i where i: "p \<le> i" "i < e" "DQUOTE = s ! i" by blast
    from rmatch_alphabet[OF a i(1,2)] i(3) na show False by simp
  qed
  from m show ?thesis
  proof (cases rule: tokenRegex_cases)
    case (string c)
    then have "rmatch stringRegex s p Map.empty \<noteq> []" by auto
    with string(2) sl t show ?thesis
      by (simp add: matchToken_def capture_def truthy_def tokOK_def)
  next
    case (number c)
    from noq[OF number(1) alphabet_no_quote(1)] number(2) sl t show ?thesis
      by (simp add: matchToken_def capture_def truthy_def tokOK_def)
  next
    case (literal c)
    from noq[OF literal(1) alphabet_no_quote(2)] literal(2) sl t show ?thesis
      by (simp add: matchToken_def capture_def truthy_def tokOK_def)
  next
    case (punctuation c)
    from noq[OF punctuation(1) alphabet_no_quote(3)] punctuation(2) sl t show ?thesis
      by (simp add: matchToken_def capture_def truthy_def tokOK_def)
  qed
qed

lemma scanInv_plain:
  assumes inv: "scanInv line n ts" and le: "n \<le> m" "m \<le> length line"
  shows "scanInv line m
          (if m > n then ts @ [\<lparr>tok_type = Plain, tok_text = array_slice line (int n) (int m)\<rparr>]
           else ts)"
proof (cases "m > n")
  case True
  have "take m line = take n line @ take (m - n) (drop n line)"
    using take_add[of n "m - n" line] le by simp
  with inv True le show ?thesis
    by (simp add: scanInv_def located_append array_slice_take_drop tokOK_def)
next
  case False
  with le have "m = n" by simp
  with inv show ?thesis by simp
qed

lemma scanInv_match:
  assumes inv: "scanInv line idx ts"
    and m: "(e, d) \<in> set (rmatch tokenRegex line idx Map.empty)"
  shows "scanInv line e (ts @ matchToken line d)"
proof -
  have p: "idx \<le> length line" using inv by (simp add: scanInv_def)
  have lo: "idx < e" using rmatch_lower[OF m] by (simp add: minWidth_tokenRegex)
  have hi: "e \<le> length line" using rmatch_upper[OF m p] .
  from matchToken_of_match[OF m p] obtain ty where
    mt: "matchToken line d = [\<lparr>tok_type = ty, tok_text = take (e - idx) (drop idx line)\<rparr>]"
    and ty: "ty \<noteq> Key"
    and ok: "tokOK line (idx, \<lparr>tok_type = ty, tok_text = take (e - idx) (drop idx line)\<rparr>)"
    by blast
  have "take e line = take idx line @ take (e - idx) (drop idx line)"
    using take_add[of idx "e - idx" line] lo by simp
  with inv mt ty ok hi p show ?thesis
    by (simp add: scanInv_def located_append)
qed

lemma scanInv_scanLoop:
  "scanInv line n ts \<Longrightarrow> scanInv line (length line) (scanLoop line n ts)"
proof (induction line n ts rule: scanLoop.induct)
  case (1 line lastEnd tokens)
  show ?case
  proof (cases "exec tokenRegex line lastEnd")
    case None
    then have eq: "scanLoop line lastEnd tokens =
        (if lastEnd < length line
         then tokens @ [\<lparr>tok_type = Plain,
                         tok_text = array_slice line (int lastEnd) (int (length line))\<rparr>]
         else tokens)"
      by (subst scanLoop.simps) simp
    have "lastEnd \<le> length line" using "1.prems" by (simp add: scanInv_def)
    from scanInv_plain[OF "1.prems" this] show ?thesis unfolding eq by simp
  next
    case (Some x)
    obtain idx e d where x: "x = (idx, e, d)" by (cases x) auto
    let ?ts = "(if idx > lastEnd
              then tokens @ [\<lparr>tok_type = Plain, tok_text = array_slice line (int lastEnd) (int idx)\<rparr>]
              else tokens) @ matchToken line d"
    have eq: "scanLoop line lastEnd tokens = scanLoop line e ?ts"
      using Some x by (subst scanLoop.simps) simp
    from exec_Some[OF Some[unfolded x]] have a: "lastEnd \<le> idx" "idx \<le> length line"
      and m: "(e, d) \<in> set (rmatch tokenRegex line idx Map.empty)" by simp_all
    have "scanInv line e ?ts"
      using scanInv_match[OF scanInv_plain[OF "1.prems" a] m] .
    from "1.IH"[OF Some x[symmetric] refl this] show ?thesis unfolding eq .
  qed
qed

lemma scanInv_initial: "scanInv line 0 []"
  by (simp add: scanInv_def)

lemma scanLoop_inv: "scanInv line (length line) (scanLoop line 0 [])"
  by (rule scanInv_scanLoop[OF scanInv_initial])


subsection \<open>The key pass\<close>

text \<open>
  \<open>colonFollows ts\<close> states in the words of the specification what the key pass looks
  for behind a string token: after zero or more plain tokens made of white space only,
  the next token is the punctuation token \<^verbatim>\<open>:\<close>.
\<close>

fun colonFollows :: "token list \<Rightarrow> bool" where
  "colonFollows [] = False"
| "colonFollows (t # ts) =
     (if tok_type t = Plain \<and> blank (tok_text t) then colonFollows ts
      else tok_type t = Punctuation \<and> tok_text t = js '':'')"

definition relabelled :: "token \<Rightarrow> token \<Rightarrow> bool" where
  "relabelled a b = (tok_text b = tok_text a
      \<and> (tok_type b = tok_type a \<or> (tok_type a = String \<and> tok_type b = Key)))"

lemma length_markKey: "length (markKey ts i) = length ts"
  by (simp add: markKey_def Let_def)

lemma skipBlank_cong:
  "length ts' = length ts \<Longrightarrow> (\<forall>m. j \<le> m \<and> m < length ts \<longrightarrow> ts' ! m = ts ! m) \<Longrightarrow>
     skipBlank ts' j = skipBlank ts j"
proof (induction ts j rule: skipBlank.induct)
  case (1 tokens j)
  show ?case
  proof (cases "j < length tokens \<and> tok_type (tokens ! j) = Plain \<and> blank (tok_text (tokens ! j))")
    case True
    then have a: "skipBlank tokens j = skipBlank tokens (j + 1)"
      by (subst skipBlank.simps) simp
    from True "1.prems" have "ts' ! j = tokens ! j" by simp
    with True "1.prems" have b: "skipBlank ts' j = skipBlank ts' (j + 1)"
      by (subst skipBlank.simps) simp
    from "1.IH"[OF True "1.prems"(1)] "1.prems"(2) a b show ?thesis by simp
  next
    case False
    then have a: "skipBlank tokens j = j" by (subst skipBlank.simps) auto
    have "j < length tokens \<Longrightarrow> ts' ! j = tokens ! j" using "1.prems" by simp
    with False "1.prems"(1) have b: "skipBlank ts' j = j" by (subst skipBlank.simps) auto
    from a b show ?thesis by simp
  qed
qed

definition keyAt :: "token list \<Rightarrow> nat \<Rightarrow> bool" where
  "keyAt ts i = (tok_type (ts ! i) = String
      \<and> skipBlank ts (i + 1) < length ts
      \<and> tok_type (ts ! skipBlank ts (i + 1)) = Punctuation
      \<and> tok_text (ts ! skipBlank ts (i + 1)) = js '':'')"

lemma skipBlank_ge: "j \<le> skipBlank ts j"
proof (induction ts j rule: skipBlank.induct)
  case (1 tokens j)
  show ?case
  proof (cases "j < length tokens \<and> tok_type (tokens ! j) = Plain \<and> blank (tok_text (tokens ! j))")
    case True
    with "1.IH" show ?thesis by (subst skipBlank.simps) auto
  next
    case False
    then show ?thesis by (subst skipBlank.simps) auto
  qed
qed

lemma markKey_eq: "markKey ts i = (if keyAt ts i then ts[i := (ts ! i)\<lparr>tok_type := Key\<rparr>] else ts)"
  by (auto simp: markKey_def keyAt_def Let_def)

lemma keyAt_cong:
  assumes "length ts' = length ts" "\<forall>m. k \<le> m \<and> m < length ts \<longrightarrow> ts' ! m = ts ! m"
    "k < length ts"
  shows "keyAt ts' k = keyAt ts k"
proof -
  have sk: "skipBlank ts' (k + 1) = skipBlank ts (k + 1)"
    using assms by (intro skipBlank_cong) auto
  have "k \<le> skipBlank ts (k + 1)" using skipBlank_ge[of "k + 1" ts] by simp
  then have "skipBlank ts (k + 1) < length ts \<Longrightarrow> ts' ! skipBlank ts (k + 1) = ts ! skipBlank ts (k + 1)"
    using assms(2) by simp
  moreover have "ts' ! k = ts ! k" using assms by simp
  ultimately show ?thesis unfolding keyAt_def sk assms(1) by auto
qed

lemma markKeys_nth:
  "length (markKeys ts i) = length ts
   \<and> (\<forall>k < length ts. markKeys ts i ! k =
        (if i \<le> k \<and> Suc k < length ts \<and> keyAt ts k then (ts ! k)\<lparr>tok_type := Key\<rparr> else ts ! k))"
proof (induction ts i rule: markKeys.induct)
  case (1 tokens i)
  show ?case
  proof (cases "int i < int (length tokens) - 1")
    case False
    then have "markKeys tokens i = tokens" by (subst markKeys.simps) simp
    moreover have "\<not> (i \<le> k \<and> Suc k < length tokens)" for k using False by auto
    ultimately show ?thesis by auto
  next
    case True
    let ?ts' = "markKey tokens i"
    have eq: "markKeys tokens i = markKeys ?ts' (i + 1)" using True by (subst markKeys.simps) simp
    have len: "length ?ts' = length tokens" by (rule length_markKey)
    note IH = "1.IH"[OF True, unfolded len]
    have i: "Suc i < length tokens" using True by simp
    have same: "?ts' ! m = tokens ! m" if "m \<noteq> i" for m
      using that by (simp add: markKey_eq)
    have "markKeys ?ts' (i + 1) ! k =
        (if i \<le> k \<and> Suc k < length tokens \<and> keyAt tokens k then (tokens ! k)\<lparr>tok_type := Key\<rparr>
         else tokens ! k)" if k: "k < length tokens" for k
    proof (cases "i + 1 \<le> k")
      case True
      have "keyAt ?ts' k = keyAt tokens k"
        using True k same by (intro keyAt_cong[OF len]) auto
      moreover have "?ts' ! k = tokens ! k" using True same by simp
      ultimately show ?thesis using IH k True by simp
    next
      case False
      then have "markKeys ?ts' (i + 1) ! k = ?ts' ! k" using IH k by simp
      also have "\<dots> = (if i \<le> k \<and> Suc k < length tokens \<and> keyAt tokens k
                         then (tokens ! k)\<lparr>tok_type := Key\<rparr> else tokens ! k)"
      proof (cases "k = i")
        case True
        with i show ?thesis by (simp add: markKey_eq)
      next
        case False
        with \<open>\<not> i + 1 \<le> k\<close> have "\<not> i \<le> k" by simp
        with False same show ?thesis by simp
      qed
      finally show ?thesis .
    qed
    with IH show ?thesis unfolding eq by simp
  qed
qed

lemma markKeys_relabelled: "list_all2 relabelled ts (markKeys ts i)"
  using markKeys_nth[of ts i]
  by (auto simp: list_all2_conv_all_nth relabelled_def keyAt_def)

lemma relabelled_text: "list_all2 relabelled xs ys \<Longrightarrow> map tok_text ys = map tok_text xs"
  by (induction xs ys rule: list_all2_induct) (auto simp: relabelled_def)

lemma markKeys_text: "map tok_text (markKeys ts i) = map tok_text ts"
  by (rule relabelled_text[OF markKeys_relabelled])


lemma skipBlank_colonFollows:
  "(skipBlank ts j < length ts \<and> tok_type (ts ! skipBlank ts j) = Punctuation
      \<and> tok_text (ts ! skipBlank ts j) = js '':'') = colonFollows (drop j ts)"
proof (induction ts j rule: skipBlank.induct)
  case (1 tokens j)
  show ?case
  proof (cases "j < length tokens")
    case False
    then have "skipBlank tokens j = j" by (subst skipBlank.simps) simp
    with False show ?thesis by simp
  next
    case True
    then have d: "drop j tokens = tokens ! j # drop (j + 1) tokens"
      by (simp add: Cons_nth_drop_Suc)
    show ?thesis
    proof (cases "tok_type (tokens ! j) = Plain \<and> blank (tok_text (tokens ! j))")
      case b: True
      with True have "skipBlank tokens j = skipBlank tokens (j + 1)"
        by (subst skipBlank.simps) simp
      with "1.IH" True b d show ?thesis by simp
    next
      case b: False
      with True have "skipBlank tokens j = j" by (subst skipBlank.simps) auto
      with True b d show ?thesis by auto
    qed
  qed
qed

lemma keyAt_colonFollows:
  "keyAt ts i = (tok_type (ts ! i) = String \<and> colonFollows (drop (Suc i) ts))"
  using skipBlank_colonFollows[of ts "i + 1"] by (auto simp: keyAt_def)

lemma colonFollows_relabelled:
  "list_all2 relabelled xs ys \<Longrightarrow> colonFollows ys = colonFollows xs"
  by (induction xs ys rule: list_all2_induct) (auto simp: relabelled_def)

lemma colonFollows_nonempty: "colonFollows ts \<Longrightarrow> ts \<noteq> []"
  by auto

lemma tokenizeLine_key_iff:
  assumes i: "i < length (tokenizeLine line)"
  shows "(tok_type (tokenizeLine line ! i) = Key)
       = (tok_type (scanLoop line 0 [] ! i) = String
          \<and> colonFollows (drop (Suc i) (tokenizeLine line)))"
proof -
  let ?ts = "scanLoop line 0 []"
  let ?out = "tokenizeLine line"
  have out: "?out = markKeys ?ts 0" by (simp add: tokenizeLine_def)
  have len: "length ?out = length ?ts" unfolding out using markKeys_nth[of ?ts 0] by simp
  have i': "i < length ?ts" using i len by simp
  have nokey: "tok_type (?ts ! i) \<noteq> Key"
    using scanLoop_inv[of line] i' by (simp add: scanInv_def list_all_length)
  have cf: "colonFollows (drop (Suc i) ?out) = colonFollows (drop (Suc i) ?ts)"
    unfolding out by (intro colonFollows_relabelled list_all2_dropI markKeys_relabelled)
  have nth: "?out ! i = (if Suc i < length ?ts \<and> keyAt ?ts i then (?ts ! i)\<lparr>tok_type := Key\<rparr> else ?ts ! i)"
    unfolding out using markKeys_nth[of ?ts 0] i' by simp
  have "colonFollows (drop (Suc i) ?ts) \<Longrightarrow> Suc i < length ?ts"
    using colonFollows_nonempty[of "drop (Suc i) ?ts"] by simp
  with nth nokey cf show ?thesis by (auto simp: keyAt_colonFollows)
qed

lemma tokenizeLine_roundtrip: "concat (map tok_text (tokenizeLine line)) = line"
  using scanLoop_inv[of line] by (simp add: tokenizeLine_def markKeys_text scanInv_def)

lemma tokOK_relabelled:
  "list_all2 relabelled xs ys \<Longrightarrow> list_all (tokOK line) (located off xs) \<Longrightarrow>
     list_all (tokOK line) (located off ys)"
proof (induction xs ys arbitrary: off rule: list_all2_induct)
  case Nil
  then show ?case by simp
next
  case (Cons x xs y ys)
  then show ?case by (auto simp: relabelled_def tokOK_def)
qed

lemma tokenizeLine_tokOK: "list_all (tokOK line) (located 0 (tokenizeLine line))"
  unfolding tokenizeLine_def
  using tokOK_relabelled[OF markKeys_relabelled] scanLoop_inv[of line]
  by (simp add: scanInv_def)

lemma find_located:
  "off0 \<le> p \<Longrightarrow> p < off0 + length (concat (map tok_text ts)) \<Longrightarrow>
    \<exists>off t. find (\<lambda>(off, t). off \<le> p \<and> p < off + length (tok_text t)) (located off0 ts) = Some (off, t)
       \<and> (off, t) \<in> set (located off0 ts) \<and> off \<le> p \<and> p < off + length (tok_text t)
       \<and> concat (map tok_text ts) ! (p - off0) = tok_text t ! (p - off)"
proof (induction ts arbitrary: off0)
  case Nil
  then show ?case by simp
next
  case (Cons a ts)
  show ?case
  proof (cases "p < off0 + length (tok_text a)")
    case True
    with Cons.prems have "p - off0 < length (tok_text a)" by arith
    with True Cons.prems show ?thesis by (simp add: nth_append)
  next
    case False
    then have a: "off0 + length (tok_text a) \<le> p" by simp
    have b: "p < off0 + length (tok_text a) + length (concat (map tok_text ts))"
      using Cons.prems(2) by simp
    from Cons.IH[OF a b] obtain off t where
      f: "find (\<lambda>(off, t). off \<le> p \<and> p < off + length (tok_text t))
             (located (off0 + length (tok_text a)) ts) = Some (off, t)"
      and m: "(off, t) \<in> set (located (off0 + length (tok_text a)) ts)"
      and r: "off \<le> p" "p < off + length (tok_text t)"
      and n: "concat (map tok_text ts) ! (p - (off0 + length (tok_text a))) = tok_text t ! (p - off)"
      by blast
    have c: "\<not> p - off0 < length (tok_text a)"
      "p - off0 - length (tok_text a) = p - (off0 + length (tok_text a))"
      using a by arith+
    have "concat (map tok_text (a # ts)) ! (p - off0) = tok_text t ! (p - off)"
      using n by (simp only: list.map concat.simps nth_append c if_False)
    with f m r False show ?thesis by simp
  qed
qed

section \<open>Properties of the update cycle\<close>

lemma length_appendMissing:
  "length toks \<le> length newLines \<Longrightarrow> length (appendMissing toks newLines) = length newLines"
proof (induction toks newLines rule: appendMissing.induct)
  case (1 toks newLines)
  show ?case
  proof (cases "length toks < length newLines")
    case True
    with "1.IH" show ?thesis by (subst appendMissing.simps) simp
  next
    case False
    with "1.prems" show ?thesis by (subst appendMissing.simps) simp
  qed
qed

lemma nth_appendMissing:
  "i < length toks \<Longrightarrow> appendMissing toks newLines ! i = toks ! i"
proof (induction toks newLines rule: appendMissing.induct)
  case (1 toks newLines)
  show ?case
  proof (cases "length toks < length newLines")
    case True
    with "1.IH" "1.prems" show ?thesis
      by (subst appendMissing.simps) (simp add: nth_append)
  next
    case False
    then show ?thesis by (subst appendMissing.simps) simp
  qed
qed

lemma findChangedRange_None_length:
  "findChangedRange oldLines newLines = None \<Longrightarrow> length oldLines = length newLines"
  by (auto simp: findChangedRange_def Let_def split: if_splits prod.splits)

lemma syncFromInput_length_changed:
  assumes "findChangedRange (lines st) (splitLines newText) \<noteq> None"
  shows "length (tokens (syncFromInput st newText a b)) = length (splitLines newText)"
proof -
  from assms obtain r where r: "findChangedRange (lines st) (splitLines newText) = Some r" by auto
  show ?thesis
    unfolding syncFromInput_def Let_def r
    by (simp add: length_appendMissing)
qed

lemma syncFromInput_length:
  assumes "length (tokens st) = length (lines st)"
  shows "length (tokens (syncFromInput st newText a b)) = length (lines (syncFromInput st newText a b))"
proof -
  have l: "lines (syncFromInput st newText a b) = splitLines newText"
    by (simp add: syncFromInput_def Let_def lines_def retokenizeRange_def split: option.splits)
  show ?thesis
  proof (cases "findChangedRange (lines st) (splitLines newText)")
    case None
    from findChangedRange_None_length[OF None] assms None show ?thesis
      unfolding l by (simp add: syncFromInput_def Let_def)
  next
    case (Some r)
    then show ?thesis unfolding l using syncFromInput_length_changed[of st newText a b] by simp
  qed
qed

lemma reachable_length: "reachable st \<Longrightarrow> length (tokens st) = length (lines st)"
proof (induction rule: reachable.induct)
  case reach_init
  show ?case by (simp add: initState_def lines_def)
next
  case (reach_measure st h w)
  then show ?case by (simp add: measureViewport_def lines_def)
next
  case (reach_scroll st t l)
  then show ?case by (simp add: onScroll_def lines_def)
next
  case (reach_sync st newText a b)
  from reach_sync.IH show ?case by (rule syncFromInput_length)
qed

lemma lines_syncFromInput: "lines (syncFromInput st newText a b) = splitLines newText"
  by (simp add: syncFromInput_def Let_def lines_def retokenizeRange_def split: option.splits)

lemma len_init: "length (splitLines INITIAL_TEXT) = 12"
  by (simp add: INITIAL_TEXT_def js_def LF_def)

lemma sync1: "syncFromInput initState (js ''a\<newline>b'') 3 3 = stAB"
proof -
  have fc: "findChangedRange (lines initState) [js ''a'', js ''b'']
      = Some \<lparr>start = 0, endOld = 11, endNew = 1\<rparr>"
    by (simp add: lines_def initState_def INITIAL_TEXT_def js_def LF_def
        findChangedRange_def scanPrefix.simps scanSuffix.simps)
  have nl: "splitLines (js ''a\<newline>b'') = [js ''a'', js ''b'']" by (simp add: js_def LF_def)
  show ?thesis
    unfolding syncFromInput_def Let_def nl fc
    by (simp add: retokenizeRange_def array_splice_def array_slice_def relIndex_def
        initState_def len_init stAB_def)
qed

lemma sync2: "tokens (syncFromInput stAB (js ''x\<newline>a\<newline>b'') 2 2)
   = [render (js ''x''), render (js ''b''), render (js ''b'')]"
proof -
  have fc: "findChangedRange (lines stAB) [js ''x'', js ''a'', js ''b'']
      = Some \<lparr>start = 0, endOld = -1, endNew = 0\<rparr>"
    by (simp add: lines_def stAB_def js_def LF_def
        findChangedRange_def scanPrefix.simps scanSuffix.simps)
  have nl: "splitLines (js ''x\<newline>a\<newline>b'') = [js ''x'', js ''a'', js ''b'']" by (simp add: js_def LF_def)
  show ?thesis
    unfolding syncFromInput_def Let_def nl fc
    by (simp add: retokenizeRange_def array_splice_def array_slice_def relIndex_def
        stAB_def appendMissing.simps)
qed

lemma render_a: "render (js ''a'') = js ''a''"
  by (simp add: tok_defs regex_defs tokensToHtml_def tokenHtml_def escapeHtml_def replaceAll_def)
lemma render_b: "render (js ''b'') = js ''b''"
  by (simp add: tok_defs regex_defs tokensToHtml_def tokenHtml_def escapeHtml_def replaceAll_def)

section \<open>Properties of the viewport calculator\<close>

lemma cvr_eq:
  "computeVisibleRange LH st =
    (max 0 (\<lfloor>scrollTop st / real_of_int LH\<rfloor> - 8),
     min (int (totalLines st) - 1)
         (max 0 (\<lfloor>scrollTop st / real_of_int LH\<rfloor> - 8) + \<lceil>viewportHeight st / real_of_int LH\<rceil> + 15))"
  by (simp add: computeVisibleRange_def Let_def RENDER_BUFFER_def)

section \<open>Claims about the line differ\<close>

text \<open>
  Claim C6 (region guarantee of the change range).  Whenever \<open>findChangedRange\<close> returns
  a range, the old and the new sequence agree on every index below \<open>start\<close>, and they
  agree end-aligned behind the changed blocks: the line \<open>k\<close> places after \<open>endOld\<close> in
  the old sequence is the line \<open>k\<close> places after \<open>endNew\<close> in the new one, for every
  \<open>k \<ge> 1\<close> with both indices in range.  Equivalently the suffix of the old sequence
  after \<open>endOld\<close> is the suffix of the new sequence after \<open>endNew\<close>.
\<close>

theorem findChangedRange_regions:
  assumes "findChangedRange oldLines newLines = Some r"
  shows "(\<forall>i < start r. i < length oldLines \<and> i < length newLines \<and> oldLines ! i = newLines ! i)
       \<and> (\<forall>k\<ge>1. endOld r + k < int (length oldLines) \<and> endNew r + k < int (length newLines)
             \<longrightarrow> oldLines ! nat (endOld r + k) = newLines ! nat (endNew r + k))
       \<and> drop (nat (endOld r + 1)) oldLines = drop (nat (endNew r + 1)) newLines"
proof -
  note pre = findChangedRange_start[OF assms]
  note suf = findChangedRange_suffix[OF assms]
  have a: "\<forall>i < start r. i < length oldLines \<and> i < length newLines \<and> oldLines ! i = newLines ! i"
    using pre by auto
  have lo: "0 \<le> endOld r + 1" "0 \<le> endNew r + 1" using suf(2,3) by simp_all
  have len: "length (drop (nat (endOld r + 1)) oldLines) = length (drop (nat (endNew r + 1)) newLines)"
    using suf(4) lo by simp
  have c: "drop (nat (endOld r + 1)) oldLines = drop (nat (endNew r + 1)) newLines"
  proof (rule nth_equalityI[OF len])
    fix i assume i: "i < length (drop (nat (endOld r + 1)) oldLines)"
    have i': "i < length (drop (nat (endNew r + 1)) newLines)" using i len by simp
    let ?k = "int i + 1"
    have b: "endOld r + ?k < int (length oldLines)" "endNew r + ?k < int (length newLines)"
      using i i' lo by simp_all
    have "oldLines ! nat (endOld r + ?k) = newLines ! nat (endNew r + ?k)"
      using suf(1) b by simp
    moreover have "nat (endOld r + ?k) = nat (endOld r + 1) + i"
      "nat (endNew r + ?k) = nat (endNew r + 1) + i" using lo by simp_all
    ultimately show "drop (nat (endOld r + 1)) oldLines ! i = drop (nat (endNew r + 1)) newLines ! i"
      using i i' by simp
  qed
  from a suf(1) c show ?thesis by blast
qed

theorem findChangedRange_regions_witness:
  "findChangedRange [js ''a'', js ''b'', js ''c''] [js ''a'', js ''x'', js ''b'', js ''c'']
     = Some \<lparr>start = 1, endOld = 0, endNew = 1\<rparr>
   \<and> drop 1 [js ''a'', js ''b'', js ''c''] = drop 2 [js ''a'', js ''x'', js ''b'', js ''c'']"
proof -
  have h: "findChangedRange [js ''a'', js ''b'', js ''c''] [js ''a'', js ''x'', js ''b'', js ''c'']
     = Some \<lparr>start = 1, endOld = 0, endNew = 1\<rparr>"
    by (simp add: findChangedRange_def scanPrefix.simps scanSuffix.simps js_def)
  from findChangedRange_regions[OF h] h show ?thesis by simp
qed

text \<open>
  Claim C5 (diff minimality by plain index).  The claim compares \<open>oldLines ! i\<close> with
  \<open>newLines ! i\<close> at the same index \<open>i\<close> above \<open>max endOld endNew\<close>.  The differ aligns
  the unchanged tail at the ends of the two sequences, so when a line is inserted the
  tail is shifted and the lines at equal indices differ: inserting \<open>x\<close> before
  \<open>[a, b]\<close> gives \<open>start = 0\<close>, \<open>endOld = -1\<close>, \<open>endNew = 0\<close>, and index \<open>1\<close> holds \<open>b\<close>
  in the old sequence and \<open>a\<close> in the new one.
\<close>

theorem findChangedRange_same_index_counterexample:
  "findChangedRange [js ''a'', js ''b''] [js ''x'', js ''a'', js ''b'']
     = Some \<lparr>start = 0, endOld = -1, endNew = 0\<rparr>
   \<and> int 1 > max (endOld \<lparr>start = 0, endOld = -1, endNew = 0\<rparr>)
                   (endNew \<lparr>start = 0, endOld = -1, endNew = 0\<rparr>)
   \<and> 1 < length [js ''a'', js ''b''] \<and> 1 < length [js ''x'', js ''a'', js ''b'']
   \<and> [js ''a'', js ''b''] ! 1 \<noteq> [js ''x'', js ''a'', js ''b''] ! 1"
  by (simp add: findChangedRange_def scanPrefix.simps scanSuffix.simps js_def)

text \<open>
  Claim C5, amended.  Whenever \<open>findChangedRange\<close> returns a range, the two sequences
  agree at every index below \<open>start\<close>; and when they have the same length (so that the
  end-aligned tail is also index-aligned) they agree at every index above
  \<open>max endOld endNew\<close>.
\<close>

theorem findChangedRange_same_index:
  assumes "findChangedRange oldLines newLines = Some r"
  shows "(\<forall>i < start r. i < length oldLines \<and> i < length newLines \<and> oldLines ! i = newLines ! i)
       \<and> (length oldLines = length newLines \<longrightarrow>
            (\<forall>i. int i > max (endOld r) (endNew r) \<and> i < length oldLines
                \<longrightarrow> oldLines ! i = newLines ! i))"
proof -
  note pre = findChangedRange_start[OF assms]
  note suf = findChangedRange_suffix[OF assms]
  have a: "\<forall>i < start r. i < length oldLines \<and> i < length newLines \<and> oldLines ! i = newLines ! i"
    using pre by auto
  have b: "oldLines ! i = newLines ! i"
    if eq: "length oldLines = length newLines"
      and i: "int i > max (endOld r) (endNew r)" "i < length oldLines" for i
  proof -
    have e: "endOld r = endNew r" using suf(4) eq by simp
    let ?k = "int i - endOld r"
    have "1 \<le> ?k" using i(1) by simp
    moreover have "endOld r + ?k < int (length oldLines)" "endNew r + ?k < int (length newLines)"
      using i(2) e eq by simp_all
    ultimately have "oldLines ! nat (endOld r + ?k) = newLines ! nat (endNew r + ?k)"
      using suf(1) by blast
    then show ?thesis using e by simp
  qed
  from a b show ?thesis by blast
qed

theorem findChangedRange_same_index_witness:
  "findChangedRange [js ''a'', js ''b'', js ''c''] [js ''a'', js ''x'', js ''c'']
     = Some \<lparr>start = 1, endOld = 1, endNew = 1\<rparr>
   \<and> [js ''a'', js ''b'', js ''c''] ! 0 = [js ''a'', js ''x'', js ''c''] ! 0
   \<and> [js ''a'', js ''b'', js ''c''] ! 2 = [js ''a'', js ''x'', js ''c''] ! 2"
proof -
  have h: "findChangedRange [js ''a'', js ''b'', js ''c''] [js ''a'', js ''x'', js ''c'']
     = Some \<lparr>start = 1, endOld = 1, endNew = 1\<rparr>"
    by (simp add: findChangedRange_def scanPrefix.simps scanSuffix.simps js_def)
  from findChangedRange_same_index[OF h] h show ?thesis by simp
qed

section \<open>Claims about the tokenizer\<close>

text \<open>
  Claim C2 (round trip).  For every line, the texts of the tokens that \<open>tokenizeLine\<close>
  returns, concatenated in order, are the line itself.  This holds for every sequence of
  code units, in particular for every line without a line feed.
\<close>

theorem tokenizeLine_round_trip:
  "concat (map tok_text (tokenizeLine line)) = line"
  by (rule tokenizeLine_roundtrip)

text \<open>
  Claim C9 (key reclassification).  A token of \<open>tokenizeLine line\<close> has type \<open>Key\<close>
  exactly when the scan loop produced it as a \<open>String\<close> token and, behind it in the
  token sequence of the line, zero or more plain tokens of white space only are followed
  by the punctuation token \<^verbatim>\<open>:\<close>.  The line \<^verbatim>\<open>"a": 1\<close> is tokenized as the key
  \<^verbatim>\<open>"a"\<close>, the punctuation \<^verbatim>\<open>:\<close>, a plain blank and the number \<^verbatim>\<open>1\<close>.
\<close>

theorem tokenizeLine_key_reclassification:
  \<open>(\<forall>i < length (tokenizeLine line).
      (tok_type (tokenizeLine line ! i) = Key)
      = (tok_type (scanLoop line 0 [] ! i) = String
         \<and> colonFollows (drop (Suc i) (tokenizeLine line))))
   \<and> tokenizeLine (js ''"a": 1'')
       = [\<lparr>tok_type = Key, tok_text = js ''"a"''\<rparr>,
          \<lparr>tok_type = Punctuation, tok_text = js '':''\<rparr>,
          \<lparr>tok_type = Plain, tok_text = js '' ''\<rparr>,
          \<lparr>tok_type = Number, tok_text = js ''1''\<rparr>]\<close>
proof
  show "\<forall>i < length (tokenizeLine line).
      (tok_type (tokenizeLine line ! i) = Key)
      = (tok_type (scanLoop line 0 [] ! i) = String
         \<and> colonFollows (drop (Suc i) (tokenizeLine line)))"
    using tokenizeLine_key_iff by blast
  show \<open>tokenizeLine (js ''"a": 1'')
       = [\<lparr>tok_type = Key, tok_text = js ''"a"''\<rparr>,
          \<lparr>tok_type = Punctuation, tok_text = js '':''\<rparr>,
          \<lparr>tok_type = Plain, tok_text = js '' ''\<rparr>,
          \<lparr>tok_type = Number, tok_text = js ''1''\<rparr>]\<close>
    by (simp add: tok_defs regex_defs)
qed

theorem tokenizeLine_key_reclassification_witness:
  \<open>0 < length (tokenizeLine (js ''"a": 1''))
   \<and> tok_type (tokenizeLine (js ''"a": 1'') ! 0) = Key
   \<and> tok_type (scanLoop (js ''"a": 1'') 0 [] ! 0) = String
   \<and> colonFollows (drop (Suc 0) (tokenizeLine (js ''"a": 1'')))\<close>
proof -
  note t = tokenizeLine_key_reclassification[of \<open>js ''"a": 1''\<close>]
  have l: \<open>0 < length (tokenizeLine (js ''"a": 1''))\<close> using t by simp
  have k: \<open>tok_type (tokenizeLine (js ''"a": 1'') ! 0) = Key\<close> using t by simp
  from t l k show ?thesis by blast
qed

text \<open>
  Claim C8 (an unterminated quote and what follows it become plain text).  As stated the
  claim fails: when the string pattern has no match at a quote, the scan goes on at the
  next character, and the characters behind the quote are matched as usual.  In the line
  \<^verbatim>\<open>"a 1\<close> the quote opens a string that is not terminated, and the digit behind it
  is a number token.
\<close>

theorem unterminated_quote_counterexample:
  \<open>js ''"a 1'' ! 0 = DQUOTE
   \<and> rmatch stringRegex (js ''"a 1'') 0 Map.empty = []
   \<and> tokenizeLine (js ''"a 1'')
       = [\<lparr>tok_type = Plain, tok_text = js ''"a ''\<rparr>, \<lparr>tok_type = Number, tok_text = js ''1''\<rparr>]
   \<and> tokenSpanAt (tokenizeLine (js ''"a 1'')) 3 = Some (3, \<lparr>tok_type = Number, tok_text = js ''1''\<rparr>)\<close>
proof -
  have t: \<open>tokenizeLine (js ''"a 1'')
       = [\<lparr>tok_type = Plain, tok_text = js ''"a ''\<rparr>, \<lparr>tok_type = Number, tok_text = js ''1''\<rparr>]\<close>
    by (simp add: tok_defs regex_defs)
  have s: \<open>rmatch stringRegex (js ''"a 1'') 0 Map.empty = []\<close>
    by (simp add: rmatch.simps regex_defs)
  have q: \<open>js ''"a 1'' ! 0 = DQUOTE\<close> by (simp add: js_def DQUOTE_def)
  have a: \<open>tokenSpanAt (tokenizeLine (js ''"a 1'')) 3 = Some (3, \<lparr>tok_type = Number, tok_text = js ''1''\<rparr>)\<close>
    unfolding t by (simp add: tokenSpanAt_def js_def)
  from q s t a show ?thesis by blast
qed

text \<open>
  Claim C8, amended.  When the string pattern has no match starting at a double quote of
  the line (the quote opens a string that is not terminated; by lemma
  \<open>last_quote_unterminated\<close> this is so when no further quote follows), no token starts
  a string there and the quote is not part of a number, boolean, null or punctuation token: the
  token that covers the quote is a plain token, unless the quote lies inside a string or
  key token that started before it.  Nothing is said about the characters behind the
  quote; they are scanned as usual.
\<close>

theorem unterminated_quote_plain:
  assumes p: "p < length line" and q: "line ! p = DQUOTE"
    and u: "rmatch stringRegex line p Map.empty = []"
  shows "\<exists>off t. tokenSpanAt (tokenizeLine line) p = Some (off, t)
           \<and> (tok_type t = Plain \<or> ((tok_type t = String \<or> tok_type t = Key) \<and> off < p))"
proof -
  let ?out = "tokenizeLine line"
  have rt: "concat (map tok_text ?out) = line" by (rule tokenizeLine_roundtrip)
  from find_located[of 0 p ?out] p rt obtain off t where
    f: "tokenSpanAt ?out p = Some (off, t)"
    and m: "(off, t) \<in> set (located 0 ?out)"
    and r: "off \<le> p" "p < off + length (tok_text t)"
    and n: "line ! p = tok_text t ! (p - off)"
    by (auto simp: tokenSpanAt_def)
  have ok: "tokOK line (off, t)"
    using tokenizeLine_tokOK[of line] m by (simp add: list_all_iff)
  have inq: "DQUOTE \<in> set (tok_text t)"
  proof -
    have "p - off < length (tok_text t)" using r by arith
    then have "tok_text t ! (p - off) \<in> set (tok_text t)" by (rule nth_mem)
    with n q show ?thesis by simp
  qed
  have "tok_type t = Plain \<or> ((tok_type t = String \<or> tok_type t = Key) \<and> off < p)"
  proof (cases "off = p")
    case True
    with ok u inq show ?thesis by (auto simp: tokOK_def)
  next
    case False
    with r ok inq show ?thesis by (auto simp: tokOK_def)
  qed
  with f show ?thesis by blast
qed

theorem unterminated_quote_plain_witness:
  \<open>0 < length (js ''"a 1'') \<and> js ''"a 1'' ! 0 = DQUOTE
   \<and> rmatch stringRegex (js ''"a 1'') 0 Map.empty = []
   \<and> tokenSpanAt (tokenizeLine (js ''"a 1'')) 0 = Some (0, \<lparr>tok_type = Plain, tok_text = js ''"a ''\<rparr>)\<close>
proof -
  have h: \<open>0 < length (js ''"a 1'')\<close> \<open>js ''"a 1'' ! 0 = DQUOTE\<close>
    \<open>rmatch stringRegex (js ''"a 1'') 0 Map.empty = []\<close>
    by (simp_all add: rmatch.simps regex_defs)
  from unterminated_quote_plain[OF h] obtain off t where
    f: \<open>tokenSpanAt (tokenizeLine (js ''"a 1'')) 0 = Some (off, t)\<close>
    and c: "tok_type t = Plain \<or> ((tok_type t = String \<or> tok_type t = Key) \<and> off < 0)" by blast
  have t: \<open>tokenizeLine (js ''"a 1'')
       = [\<lparr>tok_type = Plain, tok_text = js ''"a ''\<rparr>, \<lparr>tok_type = Number, tok_text = js ''1''\<rparr>]\<close>
    by (simp add: tok_defs regex_defs)
  have e: \<open>tokenSpanAt [\<lparr>tok_type = Plain, tok_text = js ''"a ''\<rparr>, \<lparr>tok_type = Number, tok_text = js ''1''\<rparr>] 0
       = Some (0, \<lparr>tok_type = Plain, tok_text = js ''"a ''\<rparr>)\<close>
    by (simp add: tokenSpanAt_def js_def)
  from f c have \<open>tokenSpanAt (tokenizeLine (js ''"a 1'')) 0 = Some (0, \<lparr>tok_type = Plain, tok_text = js ''"a ''\<rparr>)\<close>
    unfolding t e by simp
  with h show ?thesis by blast
qed

section \<open>Claims about the token cache\<close>

text \<open>
  Claim C7 (cache-length invariant).  After an update cycle the token cache has exactly
  one entry per line of the new text.  This holds from every state the editor can reach
  from its initial state by viewport measurements, scroll events and update cycles,
  whether the edit keeps, grows or shrinks the line count or the differ reports no
  change; and when the differ reports a change, the length fix-up establishes it from any
  state at all.
\<close>

theorem cache_length_invariant:
  "(reachable st \<longrightarrow>
      length (tokens (syncFromInput st newText a b)) = totalLines (syncFromInput st newText a b))
   \<and> (findChangedRange (lines st) (splitLines newText) \<noteq> None \<longrightarrow>
      length (tokens (syncFromInput st newText a b)) = totalLines (syncFromInput st newText a b))
   \<and> totalLines (syncFromInput st newText a b) = length (splitLines newText)"
  using syncFromInput_length[OF reachable_length, of st newText a b]
    syncFromInput_length_changed[of st newText a b]
  by (simp add: lines_syncFromInput totalLines_def)

theorem cache_length_invariant_witness:
  "reachable initState
   \<and> findChangedRange (lines initState) (splitLines (js ''a\<newline>b'')) \<noteq> None
   \<and> length (tokens (syncFromInput initState (js ''a\<newline>b'') 3 3)) = 2
   \<and> findChangedRange (lines initState) (splitLines INITIAL_TEXT) = None
   \<and> length (tokens (syncFromInput initState INITIAL_TEXT 0 0)) = 12"
proof -
  have n: "length (splitLines (js ''a\<newline>b'')) = 2" by (simp add: js_def LF_def)
  have c: "findChangedRange (lines initState) (splitLines (js ''a\<newline>b'')) \<noteq> None"
    using findChangedRange_None_length[of "lines initState" "splitLines (js ''a\<newline>b'')"]
    by (auto simp: n lines_def initState_def len_init)
  have s: "findChangedRange (lines initState) (splitLines INITIAL_TEXT) = None"
    by (simp add: lines_def initState_def findChangedRange_same)
  from cache_length_invariant[of initState "js ''a\<newline>b''" 3 3]
    cache_length_invariant[of initState INITIAL_TEXT 0 0] reach_init n c s len_init
  show ?thesis by simp
qed

text \<open>
  Claim C10 (prefix frame of the cache update).  When the differ returns a range, the
  update cycle leaves every existing cache entry at an index below \<open>start\<close> as it was.
\<close>

theorem syncFromInput_prefix_frame:
  assumes r: "findChangedRange (lines st) (splitLines newText) = Some r"
    and i: "i < start r" "i < length (tokens st)"
  shows "tokens (syncFromInput st newText a b) ! i = tokens st ! i"
proof -
  let ?nl = "splitLines newText"
  let ?st1 = "st\<lparr>docText := newText, selectionStart := a, selectionEnd := b\<rparr>"
  let ?st2 = "retokenizeRange ?st1 ?nl (start r) (endNew r)"
  have sl: "start r \<le> length ?nl" using findChangedRange_start(2)[OF r] .
  have k: "relIndex (int (start r)) (length (tokens st)) = min (start r) (length (tokens st))"
    by (simp add: relIndex_def)
  have t2: "tokens ?st2 ! i = tokens st ! i" "i < length (tokens ?st2)"
    using i by (simp_all add: retokenizeRange_def array_splice_def Let_def k nth_append)
  have "tokens (syncFromInput st newText a b) ! i = tokens ?st2 ! i"
    unfolding syncFromInput_def Let_def r using t2(2) i(1) sl
    by (simp add: nth_appendMissing)
  with t2 show ?thesis by simp
qed

theorem syncFromInput_prefix_frame_witness:
  "findChangedRange (lines stAB) (splitLines (js ''a\<newline>x\<newline>b''))
     = Some \<lparr>start = 1, endOld = 0, endNew = 1\<rparr>
   \<and> tokens (syncFromInput stAB (js ''a\<newline>x\<newline>b'') 3 3) ! 0 = render (js ''a'')"
proof -
  have h: "findChangedRange (lines stAB) (splitLines (js ''a\<newline>x\<newline>b''))
     = Some \<lparr>start = 1, endOld = 0, endNew = 1\<rparr>"
    by (simp add: lines_def stAB_def js_def LF_def
        findChangedRange_def scanPrefix.simps scanSuffix.simps)
  have "(0::nat) < start \<lparr>start = 1, endOld = 0, endNew = 1\<rparr>" "0 < length (tokens stAB)"
    by (simp_all add: stAB_def)
  from syncFromInput_prefix_frame[OF h this, of 3 3] h show ?thesis
    by (simp add: stAB_def)
qed

text \<open>
  Claim C1 (the cache equals a from-scratch tokenization after every update).  The code
  does not keep this.  \<open>retokenizeRange\<close> splices the \<open>endNew - start + 1\<close> new entries
  over the same number of old entries, so an insertion or a deletion does not shift the
  entries behind the changed block; the length fix-up then appends or cuts at the end.
  In the reachable state with the lines \<open>a\<close>, \<open>b\<close> and an exact cache, inserting the line
  \<open>x\<close> in front leaves the cache \<open>x\<close>, \<open>b\<close>, \<open>b\<close>, where tokenizing the new document
  from scratch gives \<open>x\<close>, \<open>a\<close>, \<open>b\<close>.
\<close>

theorem syncFromInput_insert_line_stale_cache:
  "reachable stAB
   \<and> tokens stAB = map render (lines stAB)
   \<and> lines (syncFromInput stAB (js ''x\<newline>a\<newline>b'') 2 2) = [js ''x'', js ''a'', js ''b'']
   \<and> tokens (syncFromInput stAB (js ''x\<newline>a\<newline>b'') 2 2)
       = [render (js ''x''), render (js ''b''), render (js ''b'')]
   \<and> tokens (syncFromInput stAB (js ''x\<newline>a\<newline>b'') 2 2) ! 1
       \<noteq> render (lines (syncFromInput stAB (js ''x\<newline>a\<newline>b'') 2 2) ! 1)"
proof -
  have r: "reachable stAB"
    using reach_sync[OF reach_init, of "js ''a\<newline>b''" 3 3] by (simp add: sync1)
  have t: "tokens stAB = map render (lines stAB)"
    by (simp add: stAB_def lines_def js_def LF_def)
  have l: "lines (syncFromInput stAB (js ''x\<newline>a\<newline>b'') 2 2) = [js ''x'', js ''a'', js ''b'']"
    by (simp add: lines_syncFromInput js_def LF_def)
  have ne: "render (js ''b'') \<noteq> render (js ''a'')"
    unfolding render_a render_b by (simp add: js_def)
  from r t l sync2 ne show ?thesis by simp
qed

section \<open>Claims about the viewport calculator\<close>

text \<open>
  Claim C3 (viewport coverage).  The line height is positive and the render buffer is the
  code's constant 8.  For every scroll offset and viewport height that are not negative,
  every line index \<open>i\<close> below the line count whose pixel span
  \<open>[i * lineHeight, (i + 1) * lineHeight)\<close> shares a point \<open>x\<close> with the window
  \<open>[scrollTop, scrollTop + viewportHeight)\<close> lies between the \<open>first\<close> and the \<open>last\<close>
  index that \<open>computeVisibleRange\<close> returns.
\<close>

theorem computeVisibleRange_covers:
  fixes x :: real
  assumes pos: "0 < LINE_HEIGHT" and S: "0 \<le> scrollTop st" and V: "0 \<le> viewportHeight st"
    and i: "i < totalLines st"
    and x1: "real i * real_of_int LINE_HEIGHT \<le> x" and x2: "x < (real i + 1) * real_of_int LINE_HEIGHT"
    and x3: "scrollTop st \<le> x" and x4: "x < scrollTop st + viewportHeight st"
  shows "fst (computeVisibleRange LINE_HEIGHT st) \<le> int i \<and> int i \<le> snd (computeVisibleRange LINE_HEIGHT st)"
proof -
  let ?h = "real_of_int LINE_HEIGHT"
  let ?f = "\<lfloor>scrollTop st / ?h\<rfloor>"
  let ?c = "\<lceil>viewportHeight st / ?h\<rceil>"
  have h: "0 < ?h" using pos by simp
  have "scrollTop st < (real i + 1) * ?h" using x2 x3 by simp
  then have "scrollTop st / ?h < real i + 1" using h by (simp add: pos_divide_less_eq)
  then have f_le: "?f \<le> int i" by (simp add: floor_le_iff)
  have "real i * ?h < scrollTop st + viewportHeight st" using x1 x4 by simp
  then have "real i < (scrollTop st + viewportHeight st) / ?h" using h by (simp add: pos_less_divide_eq)
  then have a: "real i < scrollTop st / ?h + viewportHeight st / ?h" by (simp add: add_divide_distrib)
  have "scrollTop st / ?h < of_int ?f + 1" by linarith
  moreover have "viewportHeight st / ?h \<le> of_int ?c" by linarith
  ultimately have "real i < of_int ?f + 1 + of_int ?c" using a by linarith
  then have "real_of_int (int i) < real_of_int (?f + 1 + ?c)" by simp
  then have "int i < ?f + 1 + ?c" by (simp only: of_int_less_iff)
  then have i_le: "int i \<le> ?f + ?c" by simp
  show ?thesis unfolding cvr_eq using f_le i_le i by simp
qed

theorem computeVisibleRange_covers_witness:
  "4 < totalLines stFive
   \<and> real 4 * real_of_int 28 \<le> 120 \<and> (120::real) < (real 4 + 1) * real_of_int 28
   \<and> scrollTop stFive \<le> 120 \<and> 120 < scrollTop stFive + viewportHeight stFive
   \<and> fst (computeVisibleRange 28 stFive) \<le> int 4
   \<and> int 4 \<le> snd (computeVisibleRange 28 stFive)"
proof -
  have h: "(0::int) < 28" "0 \<le> scrollTop stFive" "0 \<le> viewportHeight stFive"
    "4 < totalLines stFive"
    "real 4 * real_of_int 28 \<le> 120" "(120::real) < (real 4 + 1) * real_of_int 28"
    "scrollTop stFive \<le> 120" "120 < scrollTop stFive + viewportHeight stFive"
    by (simp_all add: stFive_def totalLines_def lines_def js_def LF_def)
  from computeVisibleRange_covers[OF h] h show ?thesis by blast
qed

text \<open>
  Claim C4 (the range is empty only for an empty document).  As stated the claim fails:
  \<open>first\<close> is not clamped to the line count, so a scroll offset that lies more than the
  render buffer past the end of the document gives \<open>first > last\<close> although the document
  has a line.  With a line height of 28, a document of one line and a scroll offset of
  252 the result is \<open>first = 1\<close>, \<open>last = 0\<close>.
\<close>

theorem computeVisibleRange_nonempty_counterexample:
  "(0::int) < 28 \<and> 0 \<le> scrollTop stScrolled \<and> 0 \<le> viewportHeight stScrolled
   \<and> 1 \<le> totalLines stScrolled
   \<and> computeVisibleRange 28 stScrolled = (1, 0)
   \<and> \<not> fst (computeVisibleRange 28 stScrolled) \<le> snd (computeVisibleRange 28 stScrolled)"
  by (simp add: stScrolled_def totalLines_def lines_def computeVisibleRange_def RENDER_BUFFER_def)

text \<open>
  Claim C4, amended.  For a positive line height and a viewport height that is not
  negative, the returned range satisfies \<open>first \<le> last\<close> exactly when the document has a
  line and the first line scrolled to, less the render buffer, is still a line of the
  document: \<open>\<lfloor>scrollTop / lineHeight\<rfloor> - 8 \<le> totalLines - 1\<close>.
\<close>

theorem computeVisibleRange_nonempty:
  assumes pos: "0 < LINE_HEIGHT" and V: "0 \<le> viewportHeight st"
  shows "(fst (computeVisibleRange LINE_HEIGHT st) \<le> snd (computeVisibleRange LINE_HEIGHT st))
       = (\<lfloor>scrollTop st / real_of_int LINE_HEIGHT\<rfloor> - RENDER_BUFFER \<le> int (totalLines st) - 1 \<and> 1 \<le> totalLines st)"
proof -
  define f where "f = \<lfloor>scrollTop st / real_of_int LINE_HEIGHT\<rfloor>"
  define c where "c = \<lceil>viewportHeight st / real_of_int LINE_HEIGHT\<rceil>"
  have "0 \<le> viewportHeight st / real_of_int LINE_HEIGHT" using pos V by simp
  then have c: "0 \<le> c" unfolding c_def by linarith
  have eq: "computeVisibleRange LINE_HEIGHT st = (max 0 (f - 8), min (int (totalLines st) - 1) (max 0 (f - 8) + c + 15))"
    unfolding cvr_eq f_def c_def ..
  show ?thesis unfolding eq RENDER_BUFFER_def f_def[symmetric] using c by auto
qed

theorem computeVisibleRange_nonempty_witness:
  "(0::int) < 28 \<and> 0 \<le> viewportHeight stFive
   \<and> \<lfloor>scrollTop stFive / real_of_int 28\<rfloor> - RENDER_BUFFER \<le> int (totalLines stFive) - 1
   \<and> 1 \<le> totalLines stFive
   \<and> fst (computeVisibleRange 28 stFive) \<le> snd (computeVisibleRange 28 stFive)"
proof -
  have h: "(0::int) < 28" "0 \<le> viewportHeight stFive" by (simp_all add: stFive_def)
  have g: "\<lfloor>scrollTop stFive / real_of_int 28\<rfloor> - RENDER_BUFFER \<le> int (totalLines stFive) - 1"
    "1 \<le> totalLines stFive"
    by (simp_all add: stFive_def totalLines_def lines_def js_def LF_def RENDER_BUFFER_def)
  from computeVisibleRange_nonempty[OF h] g h show ?thesis by simp
qed

end
